theory Spec2Isabelle
  imports Main "HOL-Library.Word"
begin

unbundle bit_operations_syntax

section \<open>The postgres collector (modules/postgres/collect.go)\<close>

text \<open>
  A shallow embedding of \<^verbatim>\<open>collect.go\<close>. Go's \<^verbatim>\<open>int64\<close> and
  \<^verbatim>\<open>uint64\<close> are 64-bit words; the snapshot \<^verbatim>\<open>map[string]int64\<close> is a
  partial map. Everything the database answers during one cycle is the value of a
  record (\<open>Env\<close>), so that each query's failure is an input of the model.
\<close>

type_synonym int64 = "64 word"
type_synonym uint64 = "64 word"
type_synonym metrics = "string \<rightharpoonup> int64"

subsection \<open>strconv.ParseInt(s, 10, 64), as the standard library computes it\<close>

datatype numError = ErrSyntax | ErrRange

text \<open>
  An \<^verbatim>\<open>error\<close> value: a failure of the driver or of database/sql (by its message),
  strconv's \<^verbatim>\<open>*NumError\<close> (the function, the text and the kind), or
  \<^verbatim>\<open>fmt.Errorf(prefix + "%v", err)\<close>, which puts the prefix before the message of
  \<open>err\<close>.
\<close>

datatype error =
    Failure string
  | NumError string string numError
  | Errorf string error

definition maxUint64 :: uint64 where
  "maxUint64 = 18446744073709551615"

text \<open>\<^verbatim>\<open>lower(c) = c | ('x' - 'X')\<close> on bytes.\<close>

definition lower :: "nat \<Rightarrow> nat" where
  "lower c = c OR 32"

text \<open>
  The digit a byte stands for in \<^verbatim>\<open>ParseUint\<close>'s loop: \<open>'0'..'9'\<close>, then letters
  (from 10 upwards); \<open>None\<close> is the \<^verbatim>\<open>default\<close> branch of the switch.
\<close>

definition digitVal :: "char \<Rightarrow> nat option" where
  "digitVal c =
     (let b = (of_char c :: nat) in
      if 48 \<le> b \<and> b \<le> 57 then Some (b - 48)
      else if 97 \<le> lower b \<and> lower b \<le> 122 then Some (lower b - 97 + 10)
      else None)"

text \<open>
  The loop of \<^verbatim>\<open>ParseUint\<close> for base 10 and bitSize 64. It returns as soon as it
  meets an invalid byte (value 0, \<open>ErrSyntax\<close>) or an overflow (value \<open>maxVal\<close>,
  \<open>ErrRange\<close>), whichever comes first in the text.
\<close>

fun parseUintLoop :: "string \<Rightarrow> uint64 \<Rightarrow> uint64 \<times> numError option" where
  "parseUintLoop [] n = (n, None)"
| "parseUintLoop (c # cs) n =
     (case digitVal c of
        None \<Rightarrow> (0, Some ErrSyntax)
      | Some d \<Rightarrow>
          if d \<ge> 10 then (0, Some ErrSyntax)
          else if n \<ge> maxUint64 div 10 + 1 then (maxUint64, Some ErrRange)
          else
            let n10 = n * 10; n1 = n10 + of_nat d in
            if n1 < n10 \<or> n1 > maxUint64 then (maxUint64, Some ErrRange)
            else parseUintLoop cs n1)"

definition ParseUint :: "string \<Rightarrow> uint64 \<times> numError option" where
  "ParseUint s = (if s = [] then (0, Some ErrSyntax) else parseUintLoop s 0)"

definition ParseInt :: "string \<Rightarrow> int64 \<times> numError option" where
  "ParseInt s =
     (if s = [] then (0, Some ErrSyntax)
      else
        let neg = (hd s = CHR ''-'');
            s1 = (if hd s = CHR ''+'' \<or> hd s = CHR ''-'' then tl s else s);
            (un, err) = ParseUint s1;
            cutoff = (9223372036854775808 :: uint64)
        in
          if err = Some ErrSyntax then (0, err)
          else if \<not> neg \<and> un \<ge> cutoff then (cutoff - 1, Some ErrRange)
          else if neg \<and> un > cutoff then (- cutoff, Some ErrRange)
          else (if neg then - un else un, None))"

text \<open>\<^verbatim>\<open>safeParseInt\<close> (lines 440-443) drops the error and keeps the value.\<close>

definition safeParseInt :: "string \<Rightarrow> int64" where
  "safeParseInt s = fst (ParseInt s)"

subsection \<open>Scanning rows (lines 402-438)\<close>

text \<open>\<^verbatim>\<open>sql.NullString\<close>: the text and whether the cell was not NULL.\<close>

record NullString =
  nsString :: string
  nsValid :: bool

text \<open>
  An \<^verbatim>\<open>interface{}\<close> handed to \<^verbatim>\<open>valueToString\<close>: a pointer to a
  \<^verbatim>\<open>sql.NullString\<close>, or a value of any other type.
\<close>

datatype iface = NullStringPtr NullString | OtherValue

definition valueToString :: "iface \<Rightarrow> string" where
  "valueToString v =
     (case v of
        OtherValue \<Rightarrow> []
      | NullStringPtr ns \<Rightarrow> if \<not> nsValid ns then [] else nsString ns)"

text \<open>
  What \<^verbatim>\<open>*sql.Rows\<close> delivers: the column names (or the error of
  \<^verbatim>\<open>Columns()\<close>), then the rows in order, each one scanned into one
  \<^verbatim>\<open>NullString\<close> per column or failing in \<^verbatim>\<open>Scan\<close>. The list ends where
  \<^verbatim>\<open>rows.Next()\<close> returns false.
\<close>

record Rows =
  columns :: "error + string list"
  scanned :: "(error + NullString list) list"

text \<open>
  The inner loop \<^verbatim>\<open>for i, v := range values { assign(columns[i], valueToString(v)) }\<close>.
  The callback mutates what it captured; that captured state is \<open>'s\<close>.
\<close>

fun assignCells :: "(string \<Rightarrow> string \<Rightarrow> 's \<Rightarrow> 's) \<Rightarrow> (string \<times> NullString) list \<Rightarrow> 's \<Rightarrow> 's" where
  "assignCells assign [] s = s"
| "assignCells assign ((column, v) # cvs) s =
     assignCells assign cvs (assign column (valueToString (NullStringPtr v)) s)"

text \<open>
  The loop over \<^verbatim>\<open>rows.Next()\<close>. \<^verbatim>\<open>Scan\<close> of database/sql fails when the row does
  not hold one value per destination, so a row of the wrong width is a scan error.
\<close>

definition scanArgsError :: error where
  "scanArgsError = Failure ''sql: wrong number of destination arguments in Scan''"

fun scanLoop :: "string list \<Rightarrow> (error + NullString list) list \<Rightarrow>
    (string \<Rightarrow> string \<Rightarrow> 's \<Rightarrow> 's) \<Rightarrow> 's \<Rightarrow> 's \<times> error option" where
  "scanLoop cols [] assign s = (s, None)"
| "scanLoop cols (Inl e # rs) assign s = (s, Some e)"
| "scanLoop cols (Inr cells # rs) assign s =
     (if length cells \<noteq> length cols then (s, Some scanArgsError)
      else scanLoop cols rs assign (assignCells assign (zip cols cells) s))"

fun collectRows :: "Rows \<Rightarrow> (string \<Rightarrow> string \<Rightarrow> 's \<Rightarrow> 's) option \<Rightarrow> 's \<Rightarrow> 's \<times> error option" where
  "collectRows rows None s = (s, None)"
| "collectRows rows (Some assign) s =
     (case columns rows of
        Inl e \<Rightarrow> (s, Some e)
      | Inr cols \<Rightarrow> scanLoop cols (scanned rows) assign s)"


subsection \<open>The collector's state and the world around it\<close>

datatype sqlDB = SqlDB

text \<open>
  \<^verbatim>\<open>addNewReplicationStandbyAppCharts(app)\<close> and
  \<^verbatim>\<open>removeReplicationStandbyAppCharts(app)\<close> are defined outside this file; the
  model records each call, in order.
\<close>

datatype chart_event = Added string | Removed string

text \<open>
  The fields of \<^verbatim>\<open>Postgres\<close> that \<^verbatim>\<open>collect.go\<close> reads or writes. A
  \<^verbatim>\<open>time.Time\<close> is an integer (nanoseconds on one clock); a \<^verbatim>\<open>time.Duration\<close>
  is an \<^verbatim>\<open>int64\<close> of nanoseconds, read signed. \<^verbatim>\<open>serverVersion\<close> is a Go
  \<^verbatim>\<open>int\<close>, read as a mathematical integer (no arithmetic is done on it).
  \<open>charts\<close> is the sequence of chart calls made so far.
\<close>

record Postgres =
  DSN :: string
  db :: "sqlDB option"
  serverVersion :: int
  maxConnections :: int64
  recheckSettingsTime :: int
  recheckSettingsEvery :: int64
  relistDatabaseTime :: int
  relistDatabaseEvery :: int64
  relistStandbyTime :: int
  relistStandbyEvery :: int64
  databases :: "string list"
  standbyApps :: "string list"
  charts :: "chart_event list"

text \<open>
  What the outside answers during one cycle. The first group is the database: the
  outcome of each statement this file executes. The second group is the part of the
  package that lives in other files: \<^verbatim>\<open>queryDatabaseList\<close> by its result,
  \<^verbatim>\<open>collectDatabaseList\<close> by what it makes of \<^verbatim>\<open>p.databases\<close>, and the
  collectors \<^verbatim>\<open>collectConnection\<close>, \<^verbatim>\<open>collectCheckpoints\<close>,
  \<^verbatim>\<open>collectDatabaseStats\<close>, \<^verbatim>\<open>collectDatabaseConflicts\<close> and
  \<^verbatim>\<open>collectDatabaseLocks\<close> by what they do to the snapshot and the error they
  return. \<open>uptimeSeconds\<close> is \<^verbatim>\<open>int64(v)\<close> for \<^verbatim>\<open>v, _ := ParseFloat(s, 64)\<close>
  (floating point, left uninterpreted). \<open>rangeOrder\<close> is the order in which
  \<^verbatim>\<open>range\<close> visits the keys of a map, which Go leaves unspecified.
\<close>

record Env =
  openResult :: "error option"
  pingResult :: "error option"
  serverVersionRow :: "error + string"
  settingsMaxConnectionsRow :: "error + string"
  standbyAppListRows :: "error + Rows"
  uptimeRow :: "error + string"
  uptimeSeconds :: "string \<Rightarrow> int64"
  txidWraparoundRows :: "error + Rows"
  walWritesRow :: "error + int64"
  walFilesRows :: "error + Rows"
  walArchiveFilesRows :: "error + Rows"
  catalogRows :: "error + Rows"
  autovacuumWorkersRows :: "error + Rows"
  standbyAppDeltaRows :: "error + Rows"
  standbyAppLagRows :: "error + Rows"
  queryDatabaseList :: "error + string list"
  collectDatabaseList :: "string list \<Rightarrow> string list \<Rightarrow> string list"
  collectConnection :: "metrics \<Rightarrow> metrics \<times> error option"
  collectCheckpoints :: "metrics \<Rightarrow> metrics \<times> error option"
  collectDatabaseStats :: "metrics \<Rightarrow> metrics \<times> error option"
  collectDatabaseConflicts :: "metrics \<Rightarrow> metrics \<times> error option"
  collectDatabaseLocks :: "metrics \<Rightarrow> metrics \<times> error option"
  rangeOrder :: "string list \<Rightarrow> string list"

text \<open>The statements and collectors a cycle can attempt, to record which ones it did.\<close>

datatype query =
    QServerVersion | QSettingsMaxConnections | QDatabaseList | QStandbyAppList
  | QConnection | QCheckpoints | QUptime | QTXIDWraparound | QWALWrites | QWALFiles
  | QWALArchiveFiles | QCatalog | QAutovacuumWorkers
  | QStandbyAppDelta | QStandbyAppLag
  | QDatabaseStats | QDatabaseConflicts | QDatabaseLocks

subsection \<open>Connection, settings and version (lines 125-168)\<close>

definition openConnection :: "Env \<Rightarrow> Postgres \<Rightarrow> Postgres \<times> error option" where
  "openConnection env p =
     (case openResult env of
        Some e \<Rightarrow>
          (p, Some (Errorf (''error on opening a connection with the Postgres database [''
                             @ DSN p @ '']: '') e))
      | None \<Rightarrow>
          (case pingResult env of
             Some e \<Rightarrow>
               (p, Some (Errorf (''error on pinging the Postgres database [''
                                  @ DSN p @ '']: '') e))
           | None \<Rightarrow> (p\<lparr>db := Some SqlDB\<rparr>, None)))"

text \<open>A parse result with the error strconv would return for it.\<close>

definition numResult :: "string \<Rightarrow> string \<Rightarrow> int64 \<times> numError option \<Rightarrow> int64 \<times> error option" where
  "numResult fn s r = (fst r, map_option (NumError fn s) (snd r))"

definition querySettingsMaxConnections :: "Env \<Rightarrow> int64 \<times> error option" where
  "querySettingsMaxConnections env =
     (case settingsMaxConnectionsRow env of
        Inl e \<Rightarrow> (0, Some e)
      | Inr s \<Rightarrow> numResult ''ParseInt'' s (ParseInt s))"

text \<open>
  \<^verbatim>\<open>strconv.Atoi\<close> is \<^verbatim>\<open>ParseInt(s, 10, 0)\<close> converted to \<^verbatim>\<open>int\<close> (its fast
  path for short texts computes the same).
\<close>

definition queryServerVersion :: "Env \<Rightarrow> int \<times> error option" where
  "queryServerVersion env =
     (case serverVersionRow env of
        Inl e \<Rightarrow> (0, Some e)
      | Inr s \<Rightarrow> (case numResult ''Atoi'' s (ParseInt s) of (v, e) \<Rightarrow> (sint v, e)))"

subsection \<open>The metric collectors (lines 170-293)\<close>

definition collectUptime :: "Env \<Rightarrow> metrics \<Rightarrow> metrics \<times> error option" where
  "collectUptime env mx =
     (case uptimeRow env of
        Inl e \<Rightarrow> (mx, Some e)
      | Inr s \<Rightarrow> (mx(''server_uptime'' \<mapsto> uptimeSeconds env s), None))"

text \<open>The callback \<^verbatim>\<open>func(column, value string) { mx[column] = safeParseInt(value) }\<close>.\<close>

definition assignColumn :: "string \<Rightarrow> string \<Rightarrow> metrics \<Rightarrow> metrics" where
  "assignColumn column v mx = mx(column \<mapsto> safeParseInt v)"

definition collectTXIDWraparound :: "Env \<Rightarrow> metrics \<Rightarrow> metrics \<times> error option" where
  "collectTXIDWraparound env mx =
     (case txidWraparoundRows env of
        Inl e \<Rightarrow> (mx, Some e)
      | Inr rows \<Rightarrow> collectRows rows (Some assignColumn) mx)"

definition collectWALWrites :: "Env \<Rightarrow> metrics \<Rightarrow> metrics \<times> error option" where
  "collectWALWrites env mx =
     (case walWritesRow env of
        Inl e \<Rightarrow> (mx, Some e)
      | Inr v \<Rightarrow> (mx(''wal_writes'' \<mapsto> v), None))"

definition collectWALFiles :: "Env \<Rightarrow> metrics \<Rightarrow> metrics \<times> error option" where
  "collectWALFiles env mx =
     (case walFilesRows env of
        Inl e \<Rightarrow> (mx, Some e)
      | Inr rows \<Rightarrow> collectRows rows (Some assignColumn) mx)"

definition collectWALArchiveFiles :: "Env \<Rightarrow> metrics \<Rightarrow> metrics \<times> error option" where
  "collectWALArchiveFiles env mx =
     (case walArchiveFilesRows env of
        Inl e \<Rightarrow> (mx, Some e)
      | Inr rows \<Rightarrow> collectRows rows (Some assignColumn) mx)"

definition relkinds :: "string list" where
  "relkinds = [''r'', ''i'', ''S'', ''t'', ''v'', ''m'', ''c'', ''f'', ''p'', ''I'']"

definition seedRelkind :: "string \<Rightarrow> metrics \<Rightarrow> metrics" where
  "seedRelkind v mx =
     (mx(''catalog_relkind_'' @ v @ ''_count'' \<mapsto> 0))(''catalog_relkind_'' @ v @ ''_size'' \<mapsto> 0)"

text \<open>The catalog callback; it captures \<^verbatim>\<open>kind\<close> and \<^verbatim>\<open>mx\<close>.\<close>

definition assignCatalog :: "string \<Rightarrow> string \<Rightarrow> string \<times> metrics \<Rightarrow> string \<times> metrics" where
  "assignCatalog column v s =
     (case s of (kind, mx) \<Rightarrow>
        if column = ''relkind'' then (v, mx)
        else (kind, mx(''catalog_relkind_'' @ kind @ ''_'' @ column \<mapsto> safeParseInt v)))"

definition collectCatalog :: "Env \<Rightarrow> metrics \<Rightarrow> metrics \<times> error option" where
  "collectCatalog env mx =
     (case catalogRows env of
        Inl e \<Rightarrow> (mx, Some e)
      | Inr rows \<Rightarrow>
          (case collectRows rows (Some assignCatalog) ([], fold seedRelkind relkinds mx) of
             ((kind, mx1), e) \<Rightarrow> (mx1, e)))"

definition collectAutovacuumWorkers :: "Env \<Rightarrow> metrics \<Rightarrow> metrics \<times> error option" where
  "collectAutovacuumWorkers env mx =
     (case autovacuumWorkersRows env of
        Inl e \<Rightarrow> (mx, Some e)
      | Inr rows \<Rightarrow> collectRows rows (Some assignColumn) mx)"


subsection \<open>Standby applications (lines 295-388)\<close>

text \<open>
  A \<^verbatim>\<open>map[string]bool\<close> whose stored values are all \<^verbatim>\<open>true\<close> is the list of its
  keys, in the order they were first stored; a key that is absent reads as
  \<^verbatim>\<open>false\<close>.
\<close>

definition setTrue :: "string \<Rightarrow> string list \<Rightarrow> string list" where
  "setTrue k ks = (if k \<in> set ks then ks else ks @ [k])"

text \<open>The callback of \<^verbatim>\<open>queryStandbyAppList\<close>; it captures \<^verbatim>\<open>seen\<close> and \<^verbatim>\<open>apps\<close>.\<close>

definition assignApp :: "string \<Rightarrow> string \<Rightarrow> string list \<times> string list \<Rightarrow> string list \<times> string list" where
  "assignApp column v s =
     (case s of (seen, apps) \<Rightarrow>
        if column = ''application_name'' \<and> v \<notin> set seen then (setTrue v seen, apps @ [v])
        else (seen, apps))"

definition queryStandbyAppList :: "Env \<Rightarrow> error + string list" where
  "queryStandbyAppList env =
     (case standbyAppListRows env of
        Inl e \<Rightarrow> Inl e
      | Inr rows \<Rightarrow>
          (case collectRows rows (Some assignApp) ([], []) of
             ((seen, apps), Some e) \<Rightarrow> Inl e
           | ((seen, apps), None) \<Rightarrow> Inr apps))"

definition addNewReplicationStandbyAppCharts :: "string \<Rightarrow> Postgres \<Rightarrow> Postgres" where
  "addNewReplicationStandbyAppCharts app p = p\<lparr>charts := charts p @ [Added app]\<rparr>"

definition removeReplicationStandbyAppCharts :: "string \<Rightarrow> Postgres \<Rightarrow> Postgres" where
  "removeReplicationStandbyAppCharts app p = p\<lparr>charts := charts p @ [Removed app]\<rparr>"

text \<open>The first loop of \<^verbatim>\<open>collectStandbyAppList\<close>, over \<^verbatim>\<open>apps\<close> (lines 332-338).\<close>

fun addLoop :: "string list \<Rightarrow> string list \<times> string list \<times> Postgres \<Rightarrow> string list \<times> string list \<times> Postgres" where
  "addLoop [] s = s"
| "addLoop (app # apps) (seen, collected, p) =
     (if app \<notin> set collected
      then addLoop apps (setTrue app seen, setTrue app collected,
                         addNewReplicationStandbyAppCharts app p)
      else addLoop apps (setTrue app seen, collected, p))"

text \<open>The second loop, over the keys of \<^verbatim>\<open>collected\<close> in the order given (lines 339-343).\<close>

fun removeLoop :: "string list \<Rightarrow> string list \<Rightarrow> Postgres \<Rightarrow> Postgres" where
  "removeLoop [] seen p = p"
| "removeLoop (app # apps) seen p =
     (if app \<notin> set seen then removeLoop apps seen (removeReplicationStandbyAppCharts app p)
      else removeLoop apps seen p)"

definition collectStandbyAppList :: "(string list \<Rightarrow> string list) \<Rightarrow> string list \<Rightarrow> Postgres \<Rightarrow> Postgres" where
  "collectStandbyAppList order apps p =
     (if length apps = 0 then p
      else
        let collected = fold setTrue (standbyApps p) [];
            p1 = p\<lparr>standbyApps := apps\<rparr>
        in (case addLoop apps ([], collected, p1) of
              (seen, collected1, p2) \<Rightarrow> removeLoop (order collected1) seen p2))"

text \<open>
  The callback of \<^verbatim>\<open>collectReplicationStandbyAppWALDelta\<close> and of
  \<^verbatim>\<open>collectReplicationStandbyAppWALLag\<close> (the two closures have the same text); it
  captures \<^verbatim>\<open>app\<close> and \<^verbatim>\<open>mx\<close>. Reading a key that is absent gives 0.
\<close>

definition mxGet :: "metrics \<Rightarrow> string \<Rightarrow> int64" where
  "mxGet mx k = (case mx k of None \<Rightarrow> 0 | Some v \<Rightarrow> v)"

definition assignStandbyWAL :: "string \<Rightarrow> string \<Rightarrow> string \<times> metrics \<Rightarrow> string \<times> metrics" where
  "assignStandbyWAL column v s =
     (case s of (app, mx) \<Rightarrow>
        if column = ''application_name'' then (v, mx)
        else
          let k = ''repl_standby_app_'' @ app @ ''_wal_'' @ column
          in (app, mx(k \<mapsto> mxGet mx k + safeParseInt v)))"

definition collectReplicationStandbyAppWALDelta :: "Env \<Rightarrow> metrics \<Rightarrow> metrics \<times> error option" where
  "collectReplicationStandbyAppWALDelta env mx =
     (case standbyAppDeltaRows env of
        Inl e \<Rightarrow> (mx, Some e)
      | Inr rows \<Rightarrow>
          (case collectRows rows (Some assignStandbyWAL) ([], mx) of
             ((app, mx1), e) \<Rightarrow> (mx1, e)))"

definition collectReplicationStandbyAppWALLag :: "Env \<Rightarrow> metrics \<Rightarrow> metrics \<times> error option" where
  "collectReplicationStandbyAppWALLag env mx =
     (case standbyAppLagRows env of
        Inl e \<Rightarrow> (mx, Some e)
      | Inr rows \<Rightarrow>
          (case collectRows rows (Some assignStandbyWAL) ([], mx) of
             ((app, mx1), e) \<Rightarrow> (mx1, e)))"

subsection \<open>One cycle (lines 13-123)\<close>

text \<open>
  A cycle's outcome: the collector afterwards, the returned snapshot (\<open>None\<close> is
  \<^verbatim>\<open>nil\<close>), the returned error, and the statements and collectors it attempted, in
  order.
\<close>

record Cycle =
  state :: Postgres
  snapshot :: "metrics option"
  err :: "error option"
  issued :: "query list"

text \<open>Lines 14-18.\<close>

definition ensureConnection :: "Env \<Rightarrow> Postgres \<Rightarrow> Postgres \<times> error option" where
  "ensureConnection env p = (if db p = None then openConnection env p else (p, None))"

text \<open>Lines 20-26.\<close>

definition ensureServerVersion :: "Env \<Rightarrow> Postgres \<Rightarrow> Postgres \<times> query list \<times> error option" where
  "ensureServerVersion env p =
     (if serverVersion p = 0 then
        (case queryServerVersion env of
           (ver, Some e) \<Rightarrow> (p, [QServerVersion], Some (Errorf ''querying server version error: '' e))
         | (ver, None) \<Rightarrow> (p\<lparr>serverVersion := ver\<rparr>, [QServerVersion], None))
      else (p, [], None))"

text \<open>
  \<^verbatim>\<open>t.Sub(u)\<close>: the difference as a \<^verbatim>\<open>Duration\<close>, or the smallest or largest
  \<^verbatim>\<open>Duration\<close> when the difference does not fit 64 bits.
\<close>

definition Sub :: "int \<Rightarrow> int \<Rightarrow> int" where
  "Sub t u =
     (let d = t - u in
      if - 9223372036854775808 \<le> d \<and> d \<le> 9223372036854775807 then d
      else if t < u then - 9223372036854775808
      else 9223372036854775807)"

text \<open>Lines 30-37.\<close>

definition refreshSettings :: "Env \<Rightarrow> int \<Rightarrow> Postgres \<Rightarrow> Postgres \<times> query list \<times> error option" where
  "refreshSettings env now p =
     (if Sub now (recheckSettingsTime p) > sint (recheckSettingsEvery p) then
        let p1 = p\<lparr>recheckSettingsTime := now\<rparr> in
        (case querySettingsMaxConnections env of
           (maxConn, Some e) \<Rightarrow>
             (p1, [QSettingsMaxConnections],
              Some (Errorf ''querying settings max connections error: '' e))
         | (maxConn, None) \<Rightarrow> (p1\<lparr>maxConnections := maxConn\<rparr>, [QSettingsMaxConnections], None))
      else (p, [], None))"

text \<open>Lines 39-46.\<close>

definition refreshDatabases :: "Env \<Rightarrow> int \<Rightarrow> Postgres \<Rightarrow> Postgres \<times> query list \<times> error option" where
  "refreshDatabases env now p =
     (if Sub now (relistDatabaseTime p) > sint (relistDatabaseEvery p) then
        let p1 = p\<lparr>relistDatabaseTime := now\<rparr> in
        (case queryDatabaseList env of
           Inl e \<Rightarrow> (p1, [QDatabaseList], Some (Errorf ''querying database list error: '' e))
         | Inr dbs \<Rightarrow>
             (p1\<lparr>databases := collectDatabaseList env dbs (databases p1)\<rparr>, [QDatabaseList], None))
      else (p, [], None))"

text \<open>Lines 48-55.\<close>

definition refreshStandbys :: "Env \<Rightarrow> int \<Rightarrow> Postgres \<Rightarrow> Postgres \<times> query list \<times> error option" where
  "refreshStandbys env now p =
     (if Sub now (relistStandbyTime p) > sint (relistStandbyEvery p) then
        let p1 = p\<lparr>relistStandbyTime := now\<rparr> in
        (case queryStandbyAppList env of
           Inl e \<Rightarrow> (p1, [QStandbyAppList], Some (Errorf ''querying standby app list error: '' e))
         | Inr apps \<Rightarrow> (collectStandbyAppList (rangeOrder env) apps p1, [QStandbyAppList], None))
      else (p, [], None))"

text \<open>
  A step of lines 59-120: the collector it calls, what it is recorded as, and the
  prefix \<^verbatim>\<open>fmt.Errorf\<close> puts before its error.
\<close>

type_synonym stage = "query \<times> string \<times> (metrics \<Rightarrow> metrics \<times> error option)"

text \<open>Lines 59-95, in the order of the source, each with the message the source gives it.\<close>

definition coreStages :: "Env \<Rightarrow> stage list" where
  "coreStages env =
     [(QConnection, ''querying server connections error: '', collectConnection env),
      (QCheckpoints, ''querying database conflicts error: '', collectCheckpoints env),
      (QUptime, ''querying server uptime error: '', collectUptime env),
      (QTXIDWraparound, ''querying txid wraparound error: '', collectTXIDWraparound env),
      (QWALWrites, ''querying wal writes error: '', collectWALWrites env),
      (QWALFiles, ''querying wal files error: '', collectWALFiles env),
      (QWALArchiveFiles, ''querying wal archive files error: '', collectWALArchiveFiles env),
      (QCatalog, ''querying catalog relations error: '', collectCatalog env),
      (QAutovacuumWorkers, ''querying autovacuum workers error: '', collectAutovacuumWorkers env)]"

text \<open>Lines 97-106.\<close>

definition standbyStages :: "Env \<Rightarrow> Postgres \<Rightarrow> stage list" where
  "standbyStages env p =
     (if length (standbyApps p) > 0 then
        (QStandbyAppDelta, ''querying replication standby app wal delta error: '',
           collectReplicationStandbyAppWALDelta env)
        # (if serverVersion p \<ge> 100000 then
             [(QStandbyAppLag, ''querying replication standby app wal lag error: '',
                 collectReplicationStandbyAppWALLag env)]
           else [])
      else [])"

text \<open>Lines 108-120.\<close>

definition databaseStages :: "Env \<Rightarrow> Postgres \<Rightarrow> stage list" where
  "databaseStages env p =
     (if length (databases p) > 0 then
        [(QDatabaseStats, ''querying database stats error: '', collectDatabaseStats env),
         (QDatabaseConflicts, ''querying database conflicts error: '', collectDatabaseConflicts env),
         (QDatabaseLocks, ''querying database locks error: '', collectDatabaseLocks env)]
      else [])"

text \<open>
  Running the steps: \<^verbatim>\<open>if err := step(mx); err != nil { return mx, fmt.Errorf(...) }\<close>,
  one after the other. The map is shared, so what a failing step wrote stays in it.
\<close>

fun runStages :: "stage list \<Rightarrow> metrics \<Rightarrow> metrics \<times> error option \<times> query list" where
  "runStages [] mx = (mx, None, [])"
| "runStages ((q, msg, f) # sts) mx =
     (case f mx of
        (mx1, Some e) \<Rightarrow> (mx1, Some (Errorf msg e), [q])
      | (mx1, None) \<Rightarrow>
          (case runStages sts mx1 of (mx2, e, qs) \<Rightarrow> (mx2, e, q # qs)))"

definition failed :: "Postgres \<Rightarrow> error \<Rightarrow> query list \<Rightarrow> Cycle" where
  "failed p e qs = \<lparr>state = p, snapshot = None, err = Some e, issued = qs\<rparr>"

definition collect :: "Env \<Rightarrow> int \<Rightarrow> Postgres \<Rightarrow> Cycle" where
  "collect env now p =
     (case ensureConnection env p of
        (p0, Some e) \<Rightarrow> failed p0 e []
      | (p0, None) \<Rightarrow>
     (case ensureServerVersion env p0 of
        (p1, q1, Some e) \<Rightarrow> failed p1 e q1
      | (p1, q1, None) \<Rightarrow>
     (case refreshSettings env now p1 of
        (p2, q2, Some e) \<Rightarrow> failed p2 e (q1 @ q2)
      | (p2, q2, None) \<Rightarrow>
     (case refreshDatabases env now p2 of
        (p3, q3, Some e) \<Rightarrow> failed p3 e (q1 @ q2 @ q3)
      | (p3, q3, None) \<Rightarrow>
     (case refreshStandbys env now p3 of
        (p4, q4, Some e) \<Rightarrow> failed p4 e (q1 @ q2 @ q3 @ q4)
      | (p4, q4, None) \<Rightarrow>
     (case runStages (coreStages env @ standbyStages env p4 @ databaseStages env p4) Map.empty of
        (mx, e, q5) \<Rightarrow>
          \<lparr>state = p4, snapshot = Some mx, err = e, issued = q1 @ q2 @ q3 @ q4 @ q5\<rparr>))))))"

text \<open>Cycles one after the other, each with its own clock reading and answers.\<close>

fun cycles :: "(Env \<times> int) list \<Rightarrow> Postgres \<Rightarrow> Cycle list" where
  "cycles [] p = []"
| "cycles ((env, now) # rest) p =
     (let c = collect env now p in c # cycles rest (state c))"




text \<open>
  The values one column hands to the callback, in scan order, up to the first row that
  fails to scan.
\<close>

fun cellValues :: "string \<Rightarrow> (string \<times> NullString) list \<Rightarrow> string list" where
  "cellValues col [] = []"
| "cellValues col ((c, v) # cvs) =
     (if c = col then valueToString (NullStringPtr v) # cellValues col cvs
      else cellValues col cvs)"

fun columnValues :: "string \<Rightarrow> string list \<Rightarrow> (error + NullString list) list \<Rightarrow> string list" where
  "columnValues col cols [] = []"
| "columnValues col cols (Inl e # rs) = []"
| "columnValues col cols (Inr cells # rs) =
     (if length cells \<noteq> length cols then []
      else cellValues col (zip cols cells) @ columnValues col cols rs)"

text \<open>Each element once, in the order of first occurrence (the words of C9).\<close>

fun firstOccurrences :: "'a list \<Rightarrow> 'a list" where
  "firstOccurrences [] = []"
| "firstOccurrences (x # xs) = x # filter (\<lambda>y. y \<noteq> x) (firstOccurrences xs)"

text \<open>A list extended by the values it does not hold yet, each once, in order.\<close>

definition extendedBy :: "'a list \<Rightarrow> 'a list \<Rightarrow> 'a list" where
  "extendedBy apps vs = apps @ filter (\<lambda>v. v \<notin> set apps) (firstOccurrences vs)"

text \<open>An environment in which every statement succeeds and returns nothing, for examples.\<close>

definition emptyRows :: Rows where
  "emptyRows = \<lparr>columns = Inr [], scanned = []\<rparr>"

definition quietEnv :: Env where
  "quietEnv =
     \<lparr>openResult = None, pingResult = None,
      serverVersionRow = Inr ''140005'', settingsMaxConnectionsRow = Inr ''100'',
      standbyAppListRows = Inr emptyRows,
      uptimeRow = Inr ''42'', uptimeSeconds = (\<lambda>s. 42),
      txidWraparoundRows = Inr emptyRows, walWritesRow = Inr 7,
      walFilesRows = Inr emptyRows, walArchiveFilesRows = Inr emptyRows,
      catalogRows = Inr emptyRows, autovacuumWorkersRows = Inr emptyRows,
      standbyAppDeltaRows = Inr emptyRows, standbyAppLagRows = Inr emptyRows,
      queryDatabaseList = Inr [], collectDatabaseList = (\<lambda>dbs old. dbs),
      collectConnection = (\<lambda>mx. (mx, None)), collectCheckpoints = (\<lambda>mx. (mx, None)),
      collectDatabaseStats = (\<lambda>mx. (mx, None)), collectDatabaseConflicts = (\<lambda>mx. (mx, None)),
      collectDatabaseLocks = (\<lambda>mx. (mx, None)),
      rangeOrder = (\<lambda>ks. ks)\<rparr>"

text \<open>A text cell that is not NULL.\<close>

definition cell :: "string \<Rightarrow> NullString" where
  "cell s = \<lparr>nsString = s, nsValid = True\<rparr>"

text \<open>The snapshot keys of one relation kind.\<close>

definition relkindCount :: "string \<Rightarrow> string" where
  "relkindCount k = ''catalog_relkind_'' @ k @ ''_count''"

definition relkindSize :: "string \<Rightarrow> string" where
  "relkindSize k = ''catalog_relkind_'' @ k @ ''_size''"

text \<open>What the seeding establishes for kind \<open>k\<close> and every callback call keeps.\<close>

definition seeded :: "string \<Rightarrow> string \<times> metrics \<Rightarrow> bool" where
  "seeded k s = (fst s \<noteq> k \<and> snd s (relkindCount k) = Some 0 \<and> snd s (relkindSize k) = Some 0)"

text \<open>Result sets for examples and statements: one value column, or a key column and a value column.\<close>

definition valueRows :: "string \<Rightarrow> string list \<Rightarrow> Rows" where
  "valueRows c vs = \<lparr>columns = Inr [c], scanned = map (\<lambda>v. Inr [cell v]) vs\<rparr>"





text \<open>A collector that has not run yet, for examples: nothing cached, every window stale.\<close>

definition newPostgres :: Postgres where
  "newPostgres =
     \<lparr>DSN = ''postgres://localhost'', db = None, serverVersion = 0, maxConnections = 0,
      recheckSettingsTime = 0, recheckSettingsEvery = 60,
      relistDatabaseTime = 0, relistDatabaseEvery = 60,
      relistStandbyTime = 0, relistStandbyEvery = 60,
      databases = [], standbyApps = [], charts = []\<rparr>"

text \<open>The chart calls made between two states of the collector.\<close>

definition newCharts :: "Postgres \<Rightarrow> Postgres \<Rightarrow> chart_event list" where
  "newCharts p p' = drop (length (charts p)) (charts p')"

text \<open>
  The steps of a cycle before the snapshot is made (lines 14-55), as one function:
  each step runs on the state the one before left, unless that one failed.
\<close>

fun andThen :: "Postgres \<times> query list \<times> error option \<Rightarrow>
    (Postgres \<Rightarrow> Postgres \<times> query list \<times> error option) \<Rightarrow> Postgres \<times> query list \<times> error option" where
  "andThen (p, qs, Some e) f = (p, qs, Some e)"
| "andThen (p, qs, None) f = (case f p of (p', qs', eo) \<Rightarrow> (p', qs @ qs', eo))"

definition prelude :: "Env \<Rightarrow> int \<Rightarrow> Postgres \<Rightarrow> Postgres \<times> query list \<times> error option" where
  "prelude env now p =
     andThen (andThen (andThen (andThen
       (case ensureConnection env p of (p0, eo) \<Rightarrow> (p0, [], eo))
       (ensureServerVersion env))
       (refreshSettings env now))
       (refreshDatabases env now))
       (refreshStandbys env now)"

text \<open>The steps after it (lines 59-120), for the state the prelude left.\<close>

definition allStages :: "Env \<Rightarrow> Postgres \<Rightarrow> stage list" where
  "allStages env p = coreStages env @ standbyStages env p @ databaseStages env p"

text \<open>
  What every step of the prelude keeps about the cached version: it changes only when
  the version statement is issued, the statement is issued only at 0, and an answer
  that parses becomes the cached value.
\<close>

definition versionRel :: "Env \<Rightarrow> Postgres \<Rightarrow> Postgres \<Rightarrow> query list \<Rightarrow> bool" where
  "versionRel env p p' qs =
     ((QServerVersion \<notin> set qs \<longrightarrow> serverVersion p' = serverVersion p)
      \<and> (QServerVersion \<in> set qs \<longrightarrow>
           serverVersion p = 0
           \<and> (\<forall>v. queryServerVersion env = (v, None) \<longrightarrow> serverVersion p' = v)))"


text \<open>The prefix the cycle puts before an error of the lag collector (line 103).\<close>

definition lagMessage :: string where
  "lagMessage = ''querying replication standby app wal lag error: ''"



section \<open>Properties\<close>

subsection \<open>Parsing and scanning\<close>

lemma parseUintLoop_syntax_zero:
  "snd (parseUintLoop s n) = Some ErrSyntax \<Longrightarrow> fst (parseUintLoop s n) = 0"
  by (induction s n rule: parseUintLoop.induct) (auto split: option.splits if_splits simp: Let_def)

lemma ParseInt_syntax_zero: "snd (ParseInt s) = Some ErrSyntax \<Longrightarrow> fst (ParseInt s) = 0"
  by (auto simp: ParseInt_def ParseUint_def Let_def split: if_splits prod.splits)

lemma safeParseInt_empty: "safeParseInt [] = 0"
  by (simp add: safeParseInt_def ParseInt_def)

lemma assignColumn_apply:
  "assignColumn c v mx k = (if k = c then Some (safeParseInt v) else mx k)"
  by (simp add: assignColumn_def)

lemma assignCells_column_other:
  "c \<notin> fst ` set cvs \<Longrightarrow> assignCells assignColumn cvs mx c = mx c"
  proof (induction cvs arbitrary: mx)
  case Nil
  then show ?case by simp
next
  case (Cons a cvs)
  obtain c' v' where a: "a = (c', v')" by (cases a)
  from Cons.prems a have ne: "c \<noteq> c'" and notin: "c \<notin> fst ` set cvs" by auto
  have "assignCells assignColumn (a # cvs) mx c
      = assignCells assignColumn cvs (assignColumn c' (valueToString (NullStringPtr v')) mx) c"
    using a by simp
  also have "\<dots> = assignColumn c' (valueToString (NullStringPtr v')) mx c"
    using notin by (rule Cons.IH)
  also have "\<dots> = mx c"
    using ne by (simp add: assignColumn_def)
  finally show ?case .
qed

lemma assignCells_column_at:
  "distinct (map fst cvs) \<Longrightarrow> (c, v) \<in> set cvs \<Longrightarrow>
   assignCells assignColumn cvs mx c = Some (safeParseInt (valueToString (NullStringPtr v)))"
proof (induction cvs arbitrary: mx)
  case Nil
  then show ?case by simp
next
  case (Cons a cvs)
  obtain c' v' where a: "a = (c', v')" by (cases a)
  show ?case
  proof (cases "(c, v) \<in> set cvs")
    case True
    with Cons a show ?thesis by simp
  next
    case False
    with Cons.prems a have eq: "c' = c" "v' = v" by auto
    with Cons.prems a have "c \<notin> fst ` set cvs" by auto
    then have "assignCells assignColumn cvs (assignColumn c (valueToString (NullStringPtr v)) mx) c
        = assignColumn c (valueToString (NullStringPtr v)) mx c"
      by (rule assignCells_column_other)
    moreover have "assignColumn c (valueToString (NullStringPtr v)) mx c
        = Some (safeParseInt (valueToString (NullStringPtr v)))"
      by (simp add: assignColumn_def)
    moreover have "assignCells assignColumn (a # cvs) mx
        = assignCells assignColumn cvs (assignColumn c (valueToString (NullStringPtr v)) mx)"
      using a eq by simp
    ultimately show ?thesis by simp
  qed
qed

text \<open>
  C10. A cell that is SQL NULL (its \<^verbatim>\<open>NullString\<close> is not valid), like any value that
  is not a \<^verbatim>\<open>*sql.NullString\<close>, is handed to the callback as the empty string; a
  row holding such a cell is scanned without an error, and the callback
  \<^verbatim>\<open>mx[column] = safeParseInt(value)\<close> stores 0 under that column.
\<close>

theorem null_cell_is_zero:
  assumes "distinct cols" and "length cells = length cols"
    and "(c, v) \<in> set (zip cols cells)" and "\<not> nsValid v"
  shows "valueToString (NullStringPtr v) = []
       \<and> valueToString OtherValue = []
       \<and> collectRows \<lparr>columns = Inr cols, scanned = [Inr cells]\<rparr> (Some assignColumn) mx
           = (assignCells assignColumn (zip cols cells) mx, None)
       \<and> assignCells assignColumn (zip cols cells) mx c = Some 0"
proof -
  have v: "valueToString (NullStringPtr v) = []"
    using assms(4) by (simp add: valueToString_def)
  have d: "distinct (map fst (zip cols cells))"
    using assms(1,2) by simp
  have "assignCells assignColumn (zip cols cells) mx c = Some (safeParseInt [])"
    using assignCells_column_at [OF d assms(3)] v by simp
  then show ?thesis
    using v assms(2) by (simp add: safeParseInt_empty valueToString_def)
qed

theorem null_cell_is_zero_witness:
  "collectRows \<lparr>columns = Inr [''relkind'', ''size''],
      scanned = [Inr [\<lparr>nsString = ''r'', nsValid = True\<rparr>, \<lparr>nsString = ''7'', nsValid = False\<rparr>]]\<rparr>
     (Some assignColumn) Map.empty
     = (assignCells assignColumn
         (zip [''relkind'', ''size'']
              [\<lparr>nsString = ''r'', nsValid = True\<rparr>, \<lparr>nsString = ''7'', nsValid = False\<rparr>]) Map.empty, None)
   \<and> assignCells assignColumn
         (zip [''relkind'', ''size'']
              [\<lparr>nsString = ''r'', nsValid = True\<rparr>, \<lparr>nsString = ''7'', nsValid = False\<rparr>]) Map.empty
         ''size'' = Some 0"
  using null_cell_is_zero [of "[''relkind'', ''size'']"
      "[\<lparr>nsString = ''r'', nsValid = True\<rparr>, \<lparr>nsString = ''7'', nsValid = False\<rparr>]"
      "''size''" "\<lparr>nsString = ''7'', nsValid = False\<rparr>" Map.empty]
  by (simp add: valueToString_def assignColumn_apply)











lemma safeParseInt_out_of_range:
  "safeParseInt ''9223372036854775808'' = 9223372036854775807"
  by code_simp




subsection \<open>The standby application list\<close>

lemma firstOccurrences_set: "set (firstOccurrences xs) = set xs"
  by (induction xs) auto

lemma firstOccurrences_distinct: "distinct (firstOccurrences xs)"
  by (induction xs) (auto simp: firstOccurrences_set)

lemma extendedBy_Nil: "extendedBy apps [] = apps"
  by (simp add: extendedBy_def)

lemma extendedBy_old: "v \<in> set apps \<Longrightarrow> extendedBy apps (v # vs) = extendedBy apps vs"
proof -
  assume v: "v \<in> set apps"
  have "filter (\<lambda>y. y \<notin> set apps) (filter (\<lambda>y. y \<noteq> v) (firstOccurrences vs))
      = filter (\<lambda>y. y \<notin> set apps) (firstOccurrences vs)"
    unfolding filter_filter using v by (auto intro: filter_cong)
  with v show ?thesis by (simp add: extendedBy_def del: filter_filter)
qed

lemma extendedBy_new: "v \<notin> set apps \<Longrightarrow> extendedBy apps (v # vs) = extendedBy (apps @ [v]) vs"
proof -
  assume v: "v \<notin> set apps"
  have "filter (\<lambda>y. y \<notin> set apps) (filter (\<lambda>y. y \<noteq> v) (firstOccurrences vs))
      = filter (\<lambda>y. y \<notin> set (apps @ [v])) (firstOccurrences vs)"
    unfolding filter_filter by (auto intro: filter_cong)
  with v show ?thesis by (simp add: extendedBy_def del: filter_filter)
qed

lemma extendedBy_append:
  "extendedBy (extendedBy apps xs) ys = extendedBy apps (xs @ ys)"
proof (induction xs arbitrary: apps)
  case Nil
  then show ?case by (simp add: extendedBy_Nil)
next
  case (Cons x xs)
  show ?case
  proof (cases "x \<in> set apps")
    case True
    then show ?thesis using Cons.IH [of apps] by (simp add: extendedBy_old)
  next
    case False
    then show ?thesis using Cons.IH [of "apps @ [x]"] by (simp add: extendedBy_new)
  qed
qed

text \<open>What the callback has collected is the old list, then the new values not yet in it.\<close>

lemma assignCells_assignApp:
  "set seen = set apps \<Longrightarrow>
   \<exists>seen'. assignCells assignApp cvs (seen, apps)
       = (seen', extendedBy apps (cellValues ''application_name'' cvs))
     \<and> set seen' = set (extendedBy apps (cellValues ''application_name'' cvs))"
proof (induction cvs arbitrary: seen apps)
  case Nil
  then show ?case by (simp add: extendedBy_Nil)
next
  case (Cons a cvs)
  obtain c v where a: "a = (c, v)" by (cases a)
  let ?val = "valueToString (NullStringPtr v)"
  show ?case
  proof (cases "c = ''application_name''")
    case False
    have "assignCells assignApp (a # cvs) (seen, apps) = assignCells assignApp cvs (seen, apps)"
      using False a by (simp add: assignApp_def)
    moreover have "cellValues ''application_name'' (a # cvs) = cellValues ''application_name'' cvs"
      using False a by simp
    ultimately show ?thesis
      using Cons.IH [OF Cons.prems] by simp
  next
    case True
    have cv: "cellValues ''application_name'' (a # cvs) = ?val # cellValues ''application_name'' cvs"
      using True a by simp
    show ?thesis
    proof (cases "?val \<in> set seen")
      case True
      have "assignCells assignApp (a # cvs) (seen, apps) = assignCells assignApp cvs (seen, apps)"
        using True a by (simp add: assignApp_def)
      moreover have "extendedBy apps (?val # cellValues ''application_name'' cvs)
          = extendedBy apps (cellValues ''application_name'' cvs)"
        using True Cons.prems by (simp add: extendedBy_old)
      ultimately show ?thesis
        using Cons.IH [OF Cons.prems] cv by simp
    next
      case False
      have s: "set (setTrue ?val seen) = set (apps @ [?val])"
        using Cons.prems by (auto simp: setTrue_def)
      have "assignCells assignApp (a # cvs) (seen, apps)
          = assignCells assignApp cvs (setTrue ?val seen, apps @ [?val])"
        using False \<open>c = ''application_name''\<close> a by (simp add: assignApp_def)
      moreover have "extendedBy apps (?val # cellValues ''application_name'' cvs)
          = extendedBy (apps @ [?val]) (cellValues ''application_name'' cvs)"
        using False Cons.prems by (simp add: extendedBy_new)
      ultimately show ?thesis
        using Cons.IH [OF s] cv by simp
    qed
  qed
qed

lemma scanLoop_assignApp:
  "set seen = set apps \<Longrightarrow>
   snd (fst (scanLoop cols rs assignApp (seen, apps)))
     = extendedBy apps (columnValues ''application_name'' cols rs)"
proof (induction rs arbitrary: seen apps)
  case Nil
  then show ?case by (simp add: extendedBy_Nil)
next
  case (Cons r rs)
  show ?case
  proof (cases r)
    case (Inl e)
    then show ?thesis by (simp add: extendedBy_Nil)
  next
    case (Inr cells)
    show ?thesis
    proof (cases "length cells = length cols")
      case False
      with Inr show ?thesis by (simp add: extendedBy_Nil)
    next
      case True
      let ?vs = "cellValues ''application_name'' (zip cols cells)"
      from assignCells_assignApp [OF Cons.prems, of "zip cols cells"]
      obtain seen1 where s1: "assignCells assignApp (zip cols cells) (seen, apps)
            = (seen1, extendedBy apps ?vs)"
        and e1: "set seen1 = set (extendedBy apps ?vs)"
        by blast
      have "snd (fst (scanLoop cols (r # rs) assignApp (seen, apps)))
          = snd (fst (scanLoop cols rs assignApp (seen1, extendedBy apps ?vs)))"
        using Inr True s1 by simp
      also have "\<dots> = extendedBy (extendedBy apps ?vs) (columnValues ''application_name'' cols rs)"
        by (rule Cons.IH [OF e1])
      also have "\<dots> = extendedBy apps (?vs @ columnValues ''application_name'' cols rs)"
        by (rule extendedBy_append)
      finally show ?thesis
        using Inr True by simp
    qed
  qed
qed

text \<open>
  C9. When \<^verbatim>\<open>queryStandbyAppList\<close> succeeds, the list it returns holds every value of
  the \<^verbatim>\<open>application_name\<close> column once, in the order of first occurrence, whatever
  duplicates the rows hold.
\<close>

theorem queryStandbyAppList_first_occurrences:
  assumes "standbyAppListRows env = Inr rows" and "columns rows = Inr cols"
    and "queryStandbyAppList env = Inr apps"
  shows "apps = firstOccurrences (columnValues ''application_name'' cols (scanned rows))
       \<and> distinct apps
       \<and> set apps = set (columnValues ''application_name'' cols (scanned rows))"
proof -
  have "snd (fst (scanLoop cols (scanned rows) assignApp ([], [])))
      = firstOccurrences (columnValues ''application_name'' cols (scanned rows))"
    using scanLoop_assignApp [of "[]" "[]" cols "scanned rows"] by (simp add: extendedBy_def)
  moreover have "snd (fst (scanLoop cols (scanned rows) assignApp ([], []))) = apps"
    using assms by (auto simp: queryStandbyAppList_def split: prod.splits option.splits)
  ultimately show ?thesis
    by (simp add: firstOccurrences_distinct firstOccurrences_set)
qed

theorem queryStandbyAppList_first_occurrences_witness:
  "queryStandbyAppList (quietEnv\<lparr>standbyAppListRows :=
       Inr \<lparr>columns = Inr [''application_name''],
            scanned = [Inr [cell ''b''], Inr [cell ''a''], Inr [cell ''b'']]\<rparr>\<rparr>) = Inr [''b'', ''a'']
   \<and> [''b'', ''a''] = firstOccurrences (columnValues ''application_name'' [''application_name'']
         [Inr [cell ''b''], Inr [cell ''a''], Inr [cell ''b'']])
   \<and> distinct [''b'', ''a'']"
proof -
  let ?rows = "\<lparr>columns = Inr [''application_name''],
            scanned = [Inr [cell ''b''], Inr [cell ''a''], Inr [cell ''b'']]\<rparr>"
  let ?env = "quietEnv\<lparr>standbyAppListRows := Inr ?rows\<rparr>"
  have q: "queryStandbyAppList ?env = Inr [''b'', ''a'']"
    by (simp add: queryStandbyAppList_def quietEnv_def assignApp_def setTrue_def
        valueToString_def cell_def)
  have "standbyAppListRows ?env = Inr ?rows" by simp
  from queryStandbyAppList_first_occurrences [OF this _ q, of "[''application_name'']"] q
  show ?thesis by simp
qed

subsection \<open>The catalog collector\<close>

text \<open>
  A key the callback writes is the key of kind \<open>k\<close> only when the callback's current
  kind is \<open>k\<close>: neither a kind letter nor \<^verbatim>\<open>count\<close> or \<^verbatim>\<open>size\<close> holds an
  underscore.
\<close>

lemma key_split:
  assumes "kind @ CHR ''_'' # column = k @ CHR ''_'' # sfx"
    and "CHR ''_'' \<notin> set k" and "CHR ''_'' \<notin> set sfx"
  shows "kind = k"
proof -
  from assms(1) obtain us where
    "(kind = k @ us \<and> us @ CHR ''_'' # column = CHR ''_'' # sfx)
     \<or> (kind @ us = k \<and> CHR ''_'' # column = us @ CHR ''_'' # sfx)"
    by (auto simp: append_eq_append_conv2)
  then show ?thesis
  proof
    assume a: "kind = k @ us \<and> us @ CHR ''_'' # column = CHR ''_'' # sfx"
    show ?thesis
    proof (cases us)
      case Nil
      with a show ?thesis by simp
    next
      case (Cons u us')
      with a have "us' @ CHR ''_'' # column = sfx" by simp
      then have "CHR ''_'' \<in> set sfx" by auto
      with assms(3) show ?thesis by simp
    qed
  next
    assume a: "kind @ us = k \<and> CHR ''_'' # column = us @ CHR ''_'' # sfx"
    show ?thesis
    proof (cases us)
      case Nil
      with a show ?thesis by simp
    next
      case (Cons u us')
      with a have "u = CHR ''_''" by simp
      with Cons a have "CHR ''_'' \<in> set k" by auto
      with assms(2) show ?thesis by simp
    qed
  qed
qed

lemma catalog_key_count:
  "CHR ''_'' \<notin> set k \<Longrightarrow> ''catalog_relkind_'' @ kind @ ''_'' @ column = relkindCount k \<Longrightarrow> kind = k"
  unfolding relkindCount_def
  by (rule key_split [of kind column k "''count''"]) auto

lemma catalog_key_size:
  "CHR ''_'' \<notin> set k \<Longrightarrow> ''catalog_relkind_'' @ kind @ ''_'' @ column = relkindSize k \<Longrightarrow> kind = k"
  unfolding relkindSize_def
  by (rule key_split [of kind column k "''size''"]) auto

lemma seedRelkind_eq:
  "seedRelkind v mx = (mx(relkindCount v \<mapsto> 0))(relkindSize v \<mapsto> 0)"
  by (simp add: seedRelkind_def relkindCount_def relkindSize_def)

lemma fold_seedRelkind_keeps_zero:
  "mx key = Some 0 \<Longrightarrow> fold seedRelkind ks mx key = Some 0"
  by (induction ks arbitrary: mx) (auto simp: seedRelkind_eq)

lemma fold_seedRelkind_seeds:
  "k \<in> set ks \<Longrightarrow>
   fold seedRelkind ks mx (relkindCount k) = Some 0 \<and> fold seedRelkind ks mx (relkindSize k) = Some 0"
proof (induction ks arbitrary: mx)
  case Nil
  then show ?case by simp
next
  case (Cons a ks)
  show ?case
  proof (cases "k = a")
    case True
    have "seedRelkind a mx (relkindCount a) = Some 0"
      by (simp add: seedRelkind_eq)
    moreover have "seedRelkind a mx (relkindSize a) = Some 0"
      by (simp add: seedRelkind_eq)
    ultimately show ?thesis
      using True by (simp add: fold_seedRelkind_keeps_zero)
  next
    case False
    with Cons show ?thesis by simp
  qed
qed

lemma assignCatalog_seeded:
  assumes "seeded k s" and "CHR ''_'' \<notin> set k" and "column = ''relkind'' \<longrightarrow> v \<noteq> k"
  shows "seeded k (assignCatalog column v s)"
proof -
  obtain kind mx where s: "s = (kind, mx)" by (cases s)
  show ?thesis
  proof (cases "column = ''relkind''")
    case True
    with assms s show ?thesis by (simp add: seeded_def assignCatalog_def)
  next
    case False
    from assms(1) s have kk: "kind \<noteq> k" by (simp add: seeded_def)
    have c: "''catalog_relkind_'' @ kind @ ''_'' @ column \<noteq> relkindCount k"
      using catalog_key_count [OF assms(2)] kk by blast
    have z: "''catalog_relkind_'' @ kind @ ''_'' @ column \<noteq> relkindSize k"
      using catalog_key_size [OF assms(2)] kk by blast
    have "assignCatalog column v s
        = (kind, mx(''catalog_relkind_'' @ kind @ ''_'' @ column \<mapsto> safeParseInt v))"
      using False s by (simp add: assignCatalog_def)
    then show ?thesis
      using assms(1) s c z by (simp add: seeded_def del: append.simps)
  qed
qed

lemma assignCells_seeded:
  "seeded k s \<Longrightarrow> CHR ''_'' \<notin> set k \<Longrightarrow> k \<notin> set (cellValues ''relkind'' cvs) \<Longrightarrow>
   seeded k (assignCells assignCatalog cvs s)"
proof (induction cvs arbitrary: s)
  case Nil
  then show ?case by simp
next
  case (Cons a cvs)
  obtain c v where a: "a = (c, v)" by (cases a)
  have "c = ''relkind'' \<longrightarrow> valueToString (NullStringPtr v) \<noteq> k"
    using Cons.prems(3) a by auto
  then have "seeded k (assignCatalog c (valueToString (NullStringPtr v)) s)"
    by (rule assignCatalog_seeded [OF Cons.prems(1,2)])
  moreover have "k \<notin> set (cellValues ''relkind'' cvs)"
    using Cons.prems(3) a by (auto split: if_splits)
  ultimately show ?case
    using Cons.IH Cons.prems(2) a by simp
qed

lemma scanLoop_seeded:
  "seeded k s \<Longrightarrow> CHR ''_'' \<notin> set k \<Longrightarrow> k \<notin> set (columnValues ''relkind'' cols rs) \<Longrightarrow>
   seeded k (fst (scanLoop cols rs assignCatalog s))"
proof (induction rs arbitrary: s)
  case Nil
  then show ?case by simp
next
  case (Cons r rs)
  show ?case
  proof (cases r)
    case (Inl e)
    with Cons.prems show ?thesis by simp
  next
    case (Inr cells)
    show ?thesis
    proof (cases "length cells = length cols")
      case False
      with Inr Cons.prems show ?thesis by simp
    next
      case True
      with Inr Cons.prems(3) have
        a: "k \<notin> set (cellValues ''relkind'' (zip cols cells))"
        and b: "k \<notin> set (columnValues ''relkind'' cols rs)"
        by auto
      have "seeded k (assignCells assignCatalog (zip cols cells) s)"
        by (rule assignCells_seeded [OF Cons.prems(1,2) a])
      then have "seeded k (fst (scanLoop cols rs assignCatalog
          (assignCells assignCatalog (zip cols cells) s)))"
        using Cons.prems(2) b by (rule Cons.IH)
      then show ?thesis
        using Inr True by simp
    qed
  qed
qed

lemma relkinds_no_underscore: "k \<in> set relkinds \<Longrightarrow> CHR ''_'' \<notin> set k \<and> k \<noteq> []"
  by (auto simp: relkinds_def)

lemma collectCatalog_seeds_absent_kinds:
  assumes "catalogRows env = Inr rows" and "columns rows = Inr cols"
    and "k \<in> set relkinds"
    and "k \<notin> set (columnValues ''relkind'' cols (scanned rows))"
  shows "fst (collectCatalog env mx) (relkindCount k) = Some 0
       \<and> fst (collectCatalog env mx) (relkindSize k) = Some 0"
proof -
  let ?s0 = "([], fold seedRelkind relkinds mx)"
  have u: "CHR ''_'' \<notin> set k" and ne: "k \<noteq> []"
    using relkinds_no_underscore [OF assms(3)] by auto
  have "seeded k ?s0"
    using fold_seedRelkind_seeds [OF assms(3), of mx] ne by (auto simp: seeded_def)
  then have "seeded k (fst (scanLoop cols (scanned rows) assignCatalog ?s0))"
    using u assms(4) by (rule scanLoop_seeded)
  moreover have "fst (collectCatalog env mx)
      = snd (fst (scanLoop cols (scanned rows) assignCatalog ?s0))"
    using assms(1,2) by (simp add: collectCatalog_def split: prod.splits)
  ultimately show ?thesis
    by (simp add: seeded_def)
qed

subsection \<open>Accumulating and overwriting collectors\<close>

lemma valueToString_cell: "valueToString (NullStringPtr (cell s)) = s"
  by (simp add: valueToString_def cell_def)










lemma safeParseInt_5: "safeParseInt ''5'' = 5"
  by code_simp




subsection \<open>Tracking the standby applications\<close>

lemma set_setTrue: "set (setTrue k ks) = insert k (set ks)"
  by (auto simp: setTrue_def)

lemma set_fold_setTrue: "set (fold setTrue xs ks) = set xs \<union> set ks"
  by (induction xs arbitrary: ks) (auto simp: set_setTrue)

lemma addLoop_result:
  "\<exists>seen' collected' p'.
     addLoop apps (seen, collected, p) = (seen', collected', p')
     \<and> set seen' = set seen \<union> set apps
     \<and> set collected' = set collected \<union> set apps
     \<and> standbyApps p' = standbyApps p
     \<and> charts p' = charts p @ map Added (filter (\<lambda>a. a \<notin> set collected) (firstOccurrences apps))"
proof (induction apps arbitrary: seen collected p)
  case Nil
  then show ?case by simp
next
  case (Cons app apps)
  show ?case
  proof (cases "app \<in> set collected")
    case True
    have f: "filter (\<lambda>a. a \<notin> set collected) (filter (\<lambda>y. y \<noteq> app) (firstOccurrences apps))
        = filter (\<lambda>a. a \<notin> set collected) (firstOccurrences apps)"
      unfolding filter_filter using True by (auto intro: filter_cong)
    from Cons.IH [of "setTrue app seen" collected p]
    obtain seen' collected' p' where
      r: "addLoop apps (setTrue app seen, collected, p) = (seen', collected', p')"
      and s: "set seen' = set (setTrue app seen) \<union> set apps"
      and c: "set collected' = set collected \<union> set apps"
      and a: "standbyApps p' = standbyApps p"
      and e: "charts p' = charts p @ map Added (filter (\<lambda>a. a \<notin> set collected) (firstOccurrences apps))"
      by blast
    have "addLoop (app # apps) (seen, collected, p) = (seen', collected', p')"
      using True r by simp
    moreover have "set seen' = set seen \<union> set (app # apps)"
      using s by (auto simp: set_setTrue)
    moreover have "set collected' = set collected \<union> set (app # apps)"
      using c True by auto
    moreover have "charts p' = charts p @ map Added
        (filter (\<lambda>a. a \<notin> set collected) (firstOccurrences (app # apps)))"
      using e True f by (simp del: filter_filter)
    ultimately show ?thesis using a by blast
  next
    case False
    let ?p1 = "addNewReplicationStandbyAppCharts app p"
    have f: "filter (\<lambda>a. a \<notin> set collected) (filter (\<lambda>y. y \<noteq> app) (firstOccurrences apps))
        = filter (\<lambda>a. a \<notin> set (setTrue app collected)) (firstOccurrences apps)"
      unfolding filter_filter by (auto simp: set_setTrue intro: filter_cong)
    from Cons.IH [of "setTrue app seen" "setTrue app collected" ?p1]
    obtain seen' collected' p' where
      r: "addLoop apps (setTrue app seen, setTrue app collected, ?p1) = (seen', collected', p')"
      and s: "set seen' = set (setTrue app seen) \<union> set apps"
      and c: "set collected' = set (setTrue app collected) \<union> set apps"
      and a: "standbyApps p' = standbyApps ?p1"
      and e: "charts p' = charts ?p1 @ map Added
          (filter (\<lambda>a. a \<notin> set (setTrue app collected)) (firstOccurrences apps))"
      by blast
    have "addLoop (app # apps) (seen, collected, p) = (seen', collected', p')"
      using False r by simp
    moreover have "set seen' = set seen \<union> set (app # apps)"
      using s by (auto simp: set_setTrue)
    moreover have "set collected' = set collected \<union> set (app # apps)"
      using c by (auto simp: set_setTrue)
    moreover have "standbyApps p' = standbyApps p"
      using a by (simp add: addNewReplicationStandbyAppCharts_def)
    moreover have "charts p' = charts p @ map Added
        (filter (\<lambda>a. a \<notin> set collected) (firstOccurrences (app # apps)))"
      using e False f by (simp add: addNewReplicationStandbyAppCharts_def del: filter_filter)
    ultimately show ?thesis by blast
  qed
qed

lemma removeLoop_result:
  "standbyApps (removeLoop ks seen p) = standbyApps p
   \<and> charts (removeLoop ks seen p) = charts p @ map Removed (filter (\<lambda>a. a \<notin> set seen) ks)"
  by (induction ks arbitrary: p) (auto simp: removeReplicationStandbyAppCharts_def)

text \<open>What one call of the tracker does with a list that is not empty.\<close>

lemma collectStandbyAppList_result:
  assumes "apps \<noteq> []"
  shows "\<exists>collected. set collected = set (standbyApps p) \<union> set apps
       \<and> standbyApps (collectStandbyAppList order apps p) = apps
       \<and> charts (collectStandbyAppList order apps p)
           = charts p
             @ map Added (filter (\<lambda>a. a \<notin> set (standbyApps p)) (firstOccurrences apps))
             @ map Removed (filter (\<lambda>a. a \<notin> set apps) (order collected))"
proof -
  let ?c0 = "fold setTrue (standbyApps p) []"
  let ?p1 = "p\<lparr>standbyApps := apps\<rparr>"
  have c0: "set ?c0 = set (standbyApps p)"
    by (simp add: set_fold_setTrue)
  from addLoop_result [of apps "[]" ?c0 ?p1]
  obtain seen collected p2 where
    r: "addLoop apps ([], ?c0, ?p1) = (seen, collected, p2)"
    and s: "set seen = set apps"
    and c: "set collected = set ?c0 \<union> set apps"
    and a: "standbyApps p2 = apps"
    and e: "charts p2 = charts p @ map Added (filter (\<lambda>a. a \<notin> set ?c0) (firstOccurrences apps))"
    by auto
  have "collectStandbyAppList order apps p = removeLoop (order collected) seen p2"
    using assms r by (simp add: collectStandbyAppList_def Let_def)
  then have "standbyApps (collectStandbyAppList order apps p) = apps"
    and "charts (collectStandbyAppList order apps p)
           = charts p
             @ map Added (filter (\<lambda>a. a \<notin> set (standbyApps p)) (firstOccurrences apps))
             @ map Removed (filter (\<lambda>a. a \<notin> set apps) (order collected))"
    using removeLoop_result [of "order collected" seen p2] a e s c0 by simp_all
  with c c0 show ?thesis by blast
qed

text \<open>
  C2, as the code has it. Given a list that is not empty, the tracker replaces the
  tracked set by it, calls the chart removal for exactly the names tracked before and
  absent from the list, and the chart creation for exactly the names of the list not
  tracked before, whatever the order in which the map is ranged over. Given the empty
  list it returns at once: nothing is removed and the tracked set stays as it was.
\<close>

theorem tracker_replaces_and_removes:
  assumes "apps \<noteq> []" and "\<forall>ks. set (order ks) = set ks"
  shows "standbyApps (collectStandbyAppList order apps p) = apps
       \<and> {a. Removed a \<in> set (newCharts p (collectStandbyAppList order apps p))}
           = set (standbyApps p) - set apps
       \<and> {a. Added a \<in> set (newCharts p (collectStandbyAppList order apps p))}
           = set apps - set (standbyApps p)
       \<and> charts (collectStandbyAppList order apps p)
           = charts p @ newCharts p (collectStandbyAppList order apps p)
       \<and> collectStandbyAppList order [] p = p"
proof -
  let ?p' = "collectStandbyAppList order apps p"
  from collectStandbyAppList_result [OF assms(1), of p order]
  obtain collected where c: "set collected = set (standbyApps p) \<union> set apps"
    and a: "standbyApps ?p' = apps"
    and e: "charts ?p' = charts p
             @ map Added (filter (\<lambda>a. a \<notin> set (standbyApps p)) (firstOccurrences apps))
             @ map Removed (filter (\<lambda>a. a \<notin> set apps) (order collected))"
    by blast
  have n: "newCharts p ?p'
      = map Added (filter (\<lambda>a. a \<notin> set (standbyApps p)) (firstOccurrences apps))
        @ map Removed (filter (\<lambda>a. a \<notin> set apps) (order collected))"
    using e by (simp add: newCharts_def)
  have o: "set (order collected) = set (standbyApps p) \<union> set apps"
    using assms(2) c by simp
  have r: "{a. Removed a \<in> set (newCharts p ?p')} = set (standbyApps p) - set apps"
    unfolding n using o by auto
  have d: "{a. Added a \<in> set (newCharts p ?p')} = set apps - set (standbyApps p)"
    unfolding n by (auto simp: firstOccurrences_set)
  have "collectStandbyAppList order [] p = p"
    by (simp add: collectStandbyAppList_def)
  with a r d e n show ?thesis by simp
qed

theorem tracker_replaces_and_removes_witness:
  "standbyApps (collectStandbyAppList (\<lambda>ks. ks) [''b'', ''c''] (newPostgres\<lparr>standbyApps := [''a'', ''b'']\<rparr>))
     = [''b'', ''c'']
   \<and> {a. Removed a \<in> set (newCharts (newPostgres\<lparr>standbyApps := [''a'', ''b'']\<rparr>)
          (collectStandbyAppList (\<lambda>ks. ks) [''b'', ''c''] (newPostgres\<lparr>standbyApps := [''a'', ''b'']\<rparr>)))}
       = {''a''}
   \<and> {a. Added a \<in> set (newCharts (newPostgres\<lparr>standbyApps := [''a'', ''b'']\<rparr>)
          (collectStandbyAppList (\<lambda>ks. ks) [''b'', ''c''] (newPostgres\<lparr>standbyApps := [''a'', ''b'']\<rparr>)))}
       = {''c''}"
proof -
  have 1: "[''b'', ''c''] \<noteq> ([] :: string list)" by simp
  have 2: "\<forall>ks :: string list. set ((\<lambda>ks. ks) ks) = set ks" by simp
  have 3: "set [''a'', ''b''] - set [''b'', ''c''] = {''a''}" by auto
  have 4: "set [''b'', ''c''] - set [''a'', ''b''] = {''c''}" by auto
  from tracker_replaces_and_removes [OF 1 2, of "newPostgres\<lparr>standbyApps := [''a'', ''b'']\<rparr>"] 3 4
  show ?thesis by simp
qed

text \<open>
  C2 as stated fails on the empty list: with \<^verbatim>\<open>a\<close> and \<^verbatim>\<open>b\<close> tracked, the empty
  list removes no chart and leaves both tracked.
\<close>

theorem tracker_empty_list_counterexample:
  "standbyApps (collectStandbyAppList (\<lambda>ks. ks) [] (newPostgres\<lparr>standbyApps := [''a'', ''b'']\<rparr>))
     = [''a'', ''b'']
   \<and> charts (collectStandbyAppList (\<lambda>ks. ks) [] (newPostgres\<lparr>standbyApps := [''a'', ''b'']\<rparr>)) = []"
  by (simp add: collectStandbyAppList_def newPostgres_def)

subsection \<open>The cycle\<close>

lemma collect_prelude:
  "collect env now p =
     (case prelude env now p of
        (p4, qs, Some e) \<Rightarrow> failed p4 e qs
      | (p4, qs, None) \<Rightarrow>
          (case runStages (allStages env p4) Map.empty of
             (mx, e, q5) \<Rightarrow> \<lparr>state = p4, snapshot = Some mx, err = e, issued = qs @ q5\<rparr>))"
  by (simp add: collect_def prelude_def allStages_def split: prod.splits option.splits)

text \<open>
  A relation between the state before, the state after and the statements issued
  holds of the prelude when it holds of every step and composes.
\<close>

lemma andThen_rel:
  assumes "P p (fst r) (fst (snd r))"
    and "\<And>p. P p (fst (f p)) (fst (snd (f p)))"
    and "\<And>p p1 p2 qs1 qs2. P p p1 qs1 \<Longrightarrow> P p1 p2 qs2 \<Longrightarrow> P p p2 (qs1 @ qs2)"
  shows "P p (fst (andThen r f)) (fst (snd (andThen r f)))"
proof -
  obtain p1 qs1 eo where r: "r = (p1, qs1, eo)" by (cases r)
  show ?thesis
  proof (cases eo)
    case (Some e)
    with r assms(1) show ?thesis by simp
  next
    case None
    obtain p2 qs2 eo2 where f: "f p1 = (p2, qs2, eo2)" by (cases "f p1")
    from assms(2) [of p1] f have "P p1 p2 qs2" by simp
    with assms(1) r have "P p p2 (qs1 @ qs2)" by (auto intro: assms(3))
    with r None f show ?thesis by simp
  qed
qed

lemma prelude_rel:
  assumes conn: "\<And>p. P p (fst (ensureConnection env p)) []"
    and ver: "\<And>p. P p (fst (ensureServerVersion env p)) (fst (snd (ensureServerVersion env p)))"
    and sett: "\<And>p. P p (fst (refreshSettings env now p)) (fst (snd (refreshSettings env now p)))"
    and dbs: "\<And>p. P p (fst (refreshDatabases env now p)) (fst (snd (refreshDatabases env now p)))"
    and stb: "\<And>p. P p (fst (refreshStandbys env now p)) (fst (snd (refreshStandbys env now p)))"
    and trans: "\<And>p p1 p2 qs1 qs2. P p p1 qs1 \<Longrightarrow> P p1 p2 qs2 \<Longrightarrow> P p p2 (qs1 @ qs2)"
  shows "P p (fst (prelude env now p)) (fst (snd (prelude env now p)))"
proof -
  let ?r0 = "case ensureConnection env p of (p0, eo) \<Rightarrow> (p0, [], eo)"
  have 0: "P p (fst ?r0) (fst (snd ?r0))"
    using conn [of p] by (simp add: case_prod_beta)
  have 1: "P p (fst (andThen ?r0 (ensureServerVersion env)))
      (fst (snd (andThen ?r0 (ensureServerVersion env))))"
    by (rule andThen_rel [where P = P and f = "ensureServerVersion env", OF 0 ver trans])
  have 2: "P p (fst (andThen (andThen ?r0 (ensureServerVersion env)) (refreshSettings env now)))
      (fst (snd (andThen (andThen ?r0 (ensureServerVersion env)) (refreshSettings env now))))"
    by (rule andThen_rel [where P = P and f = "refreshSettings env now", OF 1 sett trans])
  have 3: "P p (fst (andThen (andThen (andThen ?r0 (ensureServerVersion env))
        (refreshSettings env now)) (refreshDatabases env now)))
      (fst (snd (andThen (andThen (andThen ?r0 (ensureServerVersion env))
        (refreshSettings env now)) (refreshDatabases env now))))"
    by (rule andThen_rel [where P = P and f = "refreshDatabases env now", OF 2 dbs trans])
  show ?thesis
    unfolding prelude_def
    by (rule andThen_rel [where P = P and f = "refreshStandbys env now", OF 3 stb trans])
qed

text \<open>What the cycle returns, in terms of the prelude.\<close>

lemma collect_state: "state (collect env now p) = fst (prelude env now p)"
  by (simp add: collect_prelude failed_def split: prod.splits option.splits)

lemma runStages_issued: "set (snd (snd (runStages sts mx))) \<subseteq> fst ` set sts"
proof (induction sts arbitrary: mx)
  case Nil
  then show ?case by simp
next
  case (Cons st sts)
  obtain q msg f where st: "st = (q, msg, f)" by (cases st)
  obtain mx1 eo where f: "f mx = (mx1, eo)" by (cases "f mx")
  show ?case
  proof (cases eo)
    case (Some e)
    with st f show ?thesis by simp
  next
    case None
    obtain mx2 e qs where r: "runStages sts mx1 = (mx2, e, qs)" by (cases "runStages sts mx1")
    with Cons.IH [of mx1] have "set qs \<subseteq> fst ` set sts" by simp
    with st f None r show ?thesis by auto
  qed
qed

lemma collect_issued:
  "\<exists>q5. issued (collect env now p) = fst (snd (prelude env now p)) @ q5
      \<and> set q5 \<subseteq> fst ` set (allStages env (fst (prelude env now p)))
      \<and> (snd (snd (prelude env now p)) \<noteq> None \<longrightarrow> q5 = [])"
proof (cases "prelude env now p")
  case (fields p4 qs eo)
  show ?thesis
  proof (cases eo)
    case (Some e)
    with fields show ?thesis by (simp add: collect_prelude failed_def)
  next
    case None
    obtain mx e q5 where r: "runStages (allStages env p4) Map.empty = (mx, e, q5)"
      by (cases "runStages (allStages env p4) Map.empty")
    have "set q5 \<subseteq> fst ` set (allStages env p4)"
      using runStages_issued [of "allStages env p4" Map.empty] r by simp
    with fields None r show ?thesis by (simp add: collect_prelude)
  qed
qed

subsection \<open>What the tracker and the steps leave alone\<close>

lemma addLoop_frame:
  "snd (snd (addLoop apps (seen, collected, p)))
     = p\<lparr>charts := charts (snd (snd (addLoop apps (seen, collected, p))))\<rparr>"
proof (induction apps arbitrary: seen collected p)
  case Nil
  then show ?case by simp
next
  case (Cons app apps)
  show ?case
  proof (cases "app \<in> set collected")
    case True
    with Cons.IH [of "setTrue app seen" collected p] show ?thesis by simp
  next
    case False
    let ?p1 = "addNewReplicationStandbyAppCharts app p"
    let ?r = "snd (snd (addLoop apps (setTrue app seen, setTrue app collected, ?p1)))"
    have "?r = ?p1\<lparr>charts := charts ?r\<rparr>"
      by (rule Cons.IH)
    also have "\<dots> = p\<lparr>charts := charts ?r\<rparr>"
      by (simp add: addNewReplicationStandbyAppCharts_def)
    finally show ?thesis using False by simp
  qed
qed

lemma removeLoop_frame:
  "removeLoop ks seen p = p\<lparr>charts := charts (removeLoop ks seen p)\<rparr>"
proof (induction ks arbitrary: p)
  case Nil
  then show ?case by simp
next
  case (Cons k ks)
  show ?case
  proof (cases "k \<in> set seen")
    case True
    with Cons.IH [of p] show ?thesis by simp
  next
    case False
    let ?p1 = "removeReplicationStandbyAppCharts k p"
    have "removeLoop ks seen ?p1 = ?p1\<lparr>charts := charts (removeLoop ks seen ?p1)\<rparr>"
      by (rule Cons.IH)
    also have "\<dots> = p\<lparr>charts := charts (removeLoop ks seen ?p1)\<rparr>"
      by (simp add: removeReplicationStandbyAppCharts_def)
    finally show ?thesis using False by simp
  qed
qed

lemma collectStandbyAppList_frame:
  "collectStandbyAppList order apps p
     = p\<lparr>standbyApps := standbyApps (collectStandbyAppList order apps p),
         charts := charts (collectStandbyAppList order apps p)\<rparr>"
proof (cases "apps = []")
  case True
  then show ?thesis by (simp add: collectStandbyAppList_def)
next
  case False
  let ?p1 = "p\<lparr>standbyApps := apps\<rparr>"
  obtain seen collected p2 where
    r: "addLoop apps ([], fold setTrue (standbyApps p) [], ?p1) = (seen, collected, p2)"
    by (cases "addLoop apps ([], fold setTrue (standbyApps p) [], ?p1)")
  have p2: "p2 = ?p1\<lparr>charts := charts p2\<rparr>"
    using addLoop_frame [of apps "[]" "fold setTrue (standbyApps p) []" ?p1] r by simp
  let ?p3 = "removeLoop (order collected) seen p2"
  have e: "collectStandbyAppList order apps p = ?p3"
    using False r by (simp add: collectStandbyAppList_def Let_def)
  have "?p3 = p2\<lparr>charts := charts ?p3\<rparr>"
    by (rule removeLoop_frame)
  also have "\<dots> = ?p1\<lparr>charts := charts ?p3\<rparr>"
    by (subst p2) simp
  also have "\<dots> = p\<lparr>standbyApps := standbyApps ?p3, charts := charts ?p3\<rparr>"
    using removeLoop_result [of "order collected" seen p2] p2
    by (metis Postgres.select_convs(12) Postgres.surjective Postgres.update_convs(12,13))
  finally show ?thesis using e by simp
qed

lemma refreshStandbys_serverVersion:
  "serverVersion (fst (refreshStandbys env now p)) = serverVersion p"
proof -
  have "\<And>apps q. serverVersion (collectStandbyAppList (rangeOrder env) apps q) = serverVersion q"
    by (subst collectStandbyAppList_frame) simp
  then show ?thesis
    by (simp add: refreshStandbys_def Let_def split: sum.splits)
qed

lemma refreshStandbys_issued:
  "set (fst (snd (refreshStandbys env now p))) \<subseteq> {QStandbyAppList}"
  by (simp add: refreshStandbys_def Let_def split: sum.splits)

subsection \<open>The cached server version\<close>

lemma versionRel_trans:
  "versionRel env p p1 qs1 \<Longrightarrow> versionRel env p1 p2 qs2 \<Longrightarrow> versionRel env p p2 (qs1 @ qs2)"
  unfolding versionRel_def by auto

lemma versionRel_ensureConnection:
  "versionRel env p (fst (ensureConnection env p)) []"
  by (simp add: versionRel_def ensureConnection_def openConnection_def split: option.splits)

lemma versionRel_ensureServerVersion:
  "versionRel env p (fst (ensureServerVersion env p)) (fst (snd (ensureServerVersion env p)))"
  by (auto simp: versionRel_def ensureServerVersion_def split: prod.splits option.splits)

lemma versionRel_refreshSettings:
  "versionRel env p (fst (refreshSettings env now p)) (fst (snd (refreshSettings env now p)))"
  by (auto simp: versionRel_def refreshSettings_def Let_def split: prod.splits option.splits)

lemma versionRel_refreshDatabases:
  "versionRel env p (fst (refreshDatabases env now p)) (fst (snd (refreshDatabases env now p)))"
  by (auto simp: versionRel_def refreshDatabases_def Let_def split: sum.splits)

lemma versionRel_refreshStandbys:
  "versionRel env p (fst (refreshStandbys env now p)) (fst (snd (refreshStandbys env now p)))"
  using refreshStandbys_issued [of env now p]
  by (auto simp: versionRel_def refreshStandbys_serverVersion)

lemma versionRel_prelude:
  "versionRel env p (fst (prelude env now p)) (fst (snd (prelude env now p)))"
  by (rule prelude_rel [where P = "versionRel env"])
     (rule versionRel_ensureConnection versionRel_ensureServerVersion versionRel_refreshSettings
        versionRel_refreshDatabases versionRel_refreshStandbys versionRel_trans | assumption)+

lemma allStages_queries:
  "fst ` set (allStages env p) \<subseteq>
     {QConnection, QCheckpoints, QUptime, QTXIDWraparound, QWALWrites, QWALFiles,
      QWALArchiveFiles, QCatalog, QAutovacuumWorkers, QStandbyAppDelta, QStandbyAppLag,
      QDatabaseStats, QDatabaseConflicts, QDatabaseLocks}"
  by (auto simp: allStages_def coreStages_def standbyStages_def databaseStages_def)

lemma versionRel_collect:
  "versionRel env p (state (collect env now p)) (issued (collect env now p))"
proof -
  from collect_issued [of env now p] obtain q5 where
    i: "issued (collect env now p) = fst (snd (prelude env now p)) @ q5"
    and q: "set q5 \<subseteq> fst ` set (allStages env (fst (prelude env now p)))"
    by blast
  have "QServerVersion \<notin> set q5"
    using q allStages_queries [of env "fst (prelude env now p)"] by auto
  then show ?thesis
    using versionRel_prelude [of env p now] i
    by (simp add: versionRel_def collect_state)
qed

lemma cycles_keep_version:
  "serverVersion p \<noteq> 0 \<Longrightarrow>
   \<forall>c \<in> set (cycles es p). QServerVersion \<notin> set (issued c) \<and> serverVersion (state c) = serverVersion p"
proof (induction es arbitrary: p)
  case Nil
  then show ?case by simp
next
  case (Cons e es)
  obtain env now where e: "e = (env, now)" by (cases e)
  let ?c = "collect env now p"
  from versionRel_collect [of env p now] Cons.prems
  have 1: "QServerVersion \<notin> set (issued ?c)" and 2: "serverVersion (state ?c) = serverVersion p"
    by (auto simp: versionRel_def)
  from Cons.IH [of "state ?c"] 2 Cons.prems
  have "\<forall>c \<in> set (cycles es (state ?c)).
      QServerVersion \<notin> set (issued c) \<and> serverVersion (state c) = serverVersion p"
    by simp
  with 1 2 e show ?case by (simp add: Let_def)
qed

text \<open>
  C7, as the code has it. Once the cached version is not 0 no later cycle issues the
  version statement or changes the cache; a cycle issues the statement only when the
  cache is 0; and when the statement is issued and its answer parses, the cache holds
  the parsed value afterwards (so a non-zero answer stays for good).
\<close>

theorem server_version_cached:
  "(serverVersion p \<noteq> 0 \<longrightarrow>
      (\<forall>c \<in> set (cycles es p).
         QServerVersion \<notin> set (issued c) \<and> serverVersion (state c) = serverVersion p))
   \<and> (QServerVersion \<in> set (issued (collect env now p)) \<longrightarrow> serverVersion p = 0)
   \<and> (QServerVersion \<in> set (issued (collect env now p)) \<and> queryServerVersion env = (v, None)
        \<longrightarrow> serverVersion (state (collect env now p)) = v)"
  using cycles_keep_version [of p es] versionRel_collect [of env p now]
  by (simp add: versionRel_def)

theorem server_version_cached_witness:
  "serverVersion (newPostgres\<lparr>serverVersion := 140005\<rparr>) \<noteq> 0
   \<and> list_all (\<lambda>c. QServerVersion \<notin> set (issued c) \<and> serverVersion (state c) = 140005)
        (cycles [(quietEnv, 100), (quietEnv, 200)] (newPostgres\<lparr>serverVersion := 140005\<rparr>))
   \<and> QServerVersion \<in> set (issued (collect quietEnv 100 newPostgres))
   \<and> queryServerVersion quietEnv = (140005, None)
   \<and> serverVersion newPostgres = 0
   \<and> serverVersion (state (collect quietEnv 100 newPostgres)) = 140005"
proof -
  have 1: "serverVersion (newPostgres\<lparr>serverVersion := 140005\<rparr>) \<noteq> 0"
    by simp
  have 2: "QServerVersion \<in> set (issued (collect quietEnv 100 newPostgres))"
    by code_simp
  have 3: "queryServerVersion quietEnv = (140005, None)"
    by code_simp
  from server_version_cached [of "newPostgres\<lparr>serverVersion := 140005\<rparr>"
      "[(quietEnv, 100), (quietEnv, 200)]" quietEnv 100 140005]
    server_version_cached [of newPostgres "[]" quietEnv 100 140005] 1 2 3
  show ?thesis
    by (simp add: list_all_iff)
qed

text \<open>
  C7 as stated fails when the server answers \<^verbatim>\<open>0\<close>: the statement succeeds, the cycle
  succeeds, the cache is still 0, and the next cycle issues the statement again.
\<close>

theorem server_version_zero_counterexample:
  "queryServerVersion (quietEnv\<lparr>serverVersionRow := Inr ''0''\<rparr>) = (0, None)
   \<and> err (collect (quietEnv\<lparr>serverVersionRow := Inr ''0''\<rparr>) 100 newPostgres) = None
   \<and> serverVersion (state (collect (quietEnv\<lparr>serverVersionRow := Inr ''0''\<rparr>) 100 newPostgres)) = 0
   \<and> map (\<lambda>c. QServerVersion \<in> set (issued c))
        (cycles [(quietEnv\<lparr>serverVersionRow := Inr ''0''\<rparr>, 100),
                 (quietEnv\<lparr>serverVersionRow := Inr ''0''\<rparr>, 200)] newPostgres)
       = [True, True]"
  by code_simp

subsection \<open>The ten relation kinds\<close>

text \<open>
  C5, as the code has it. When the catalog statement succeeds, each of the ten kinds
  \<^verbatim>\<open>r i S t v m c f p I\<close> that no folded row names in its \<^verbatim>\<open>relkind\<close> column has
  its count key and its size key in the snapshot afterwards with value 0, whatever the
  rows hold otherwise, whether or not the scan fails on the way, and whatever the
  snapshot held before. When the statement itself fails the collector returns before
  the seeding and leaves the snapshot as it was.
\<close>

theorem catalog_ten_kinds_seeded:
  "(catalogRows env = Inr rows
      \<and> k \<in> {''r'', ''i'', ''S'', ''t'', ''v'', ''m'', ''c'', ''f'', ''p'', ''I''}
      \<and> (\<forall>cols. columns rows = Inr cols
             \<longrightarrow> k \<notin> set (columnValues ''relkind'' cols (scanned rows)))
    \<longrightarrow> fst (collectCatalog env mx) (''catalog_relkind_'' @ k @ ''_count'') = Some 0
      \<and> fst (collectCatalog env mx) (''catalog_relkind_'' @ k @ ''_size'') = Some 0)
   \<and> (catalogRows env = Inl e \<longrightarrow> collectCatalog env mx = (mx, Some e))"
proof -
  have a: "fst (collectCatalog env mx) (''catalog_relkind_'' @ k @ ''_count'') = Some 0
      \<and> fst (collectCatalog env mx) (''catalog_relkind_'' @ k @ ''_size'') = Some 0"
    if r: "catalogRows env = Inr rows"
      and k: "k \<in> {''r'', ''i'', ''S'', ''t'', ''v'', ''m'', ''c'', ''f'', ''p'', ''I''}"
      and n: "\<forall>cols. columns rows = Inr cols
             \<longrightarrow> k \<notin> set (columnValues ''relkind'' cols (scanned rows))"
  proof -
    from k have kr: "k \<in> set relkinds"
      by (auto simp: relkinds_def)
    show ?thesis
    proof (cases "columns rows")
      case (Inr cols)
      with n have "k \<notin> set (columnValues ''relkind'' cols (scanned rows))" by simp
      from collectCatalog_seeds_absent_kinds [OF r Inr kr this, of mx]
      show ?thesis by (simp add: relkindCount_def relkindSize_def)
    next
      case (Inl e')
      have "fst (collectCatalog env mx) = fold seedRelkind relkinds mx"
        using r Inl by (simp add: collectCatalog_def)
      with fold_seedRelkind_seeds [OF kr, of mx] show ?thesis
        by (simp add: relkindCount_def relkindSize_def)
    qed
  qed
  have b: "collectCatalog env mx = (mx, Some e)" if "catalogRows env = Inl e"
    using that by (simp add: collectCatalog_def)
  show ?thesis
  proof (intro conjI impI)
    assume h: "catalogRows env = Inr rows
      \<and> k \<in> {''r'', ''i'', ''S'', ''t'', ''v'', ''m'', ''c'', ''f'', ''p'', ''I''}
      \<and> (\<forall>cols. columns rows = Inr cols
             \<longrightarrow> k \<notin> set (columnValues ''relkind'' cols (scanned rows)))"
    from h have h1: "catalogRows env = Inr rows" by (rule conjunct1)
    from h have h2: "k \<in> {''r'', ''i'', ''S'', ''t'', ''v'', ''m'', ''c'', ''f'', ''p'', ''I''}"
      by (rule conjunct2 [THEN conjunct1])
    from h have h3: "\<forall>cols. columns rows = Inr cols
             \<longrightarrow> k \<notin> set (columnValues ''relkind'' cols (scanned rows))"
      by (rule conjunct2 [THEN conjunct2])
    from a [OF h1 h2 h3]
    show "fst (collectCatalog env mx) (''catalog_relkind_'' @ k @ ''_count'') = Some 0"
      by (rule conjunct1)
    from a [OF h1 h2 h3]
    show "fst (collectCatalog env mx) (''catalog_relkind_'' @ k @ ''_size'') = Some 0"
      by (rule conjunct2)
  next
    assume "catalogRows env = Inl e"
    then show "collectCatalog env mx = (mx, Some e)" by (rule b)
  qed
qed

theorem catalog_ten_kinds_seeded_witness:
  "fst (collectCatalog (quietEnv\<lparr>catalogRows := Inr \<lparr>columns = Inr [''relkind'', ''count'', ''size''],
          scanned = [Inr [cell ''r'', cell ''5'', cell ''100'']]\<rparr>\<rparr>) Map.empty)
      ''catalog_relkind_i_count'' = Some 0
   \<and> fst (collectCatalog (quietEnv\<lparr>catalogRows := Inr \<lparr>columns = Inr [''relkind'', ''count'', ''size''],
          scanned = [Inr [cell ''r'', cell ''5'', cell ''100'']]\<rparr>\<rparr>) Map.empty)
      ''catalog_relkind_i_size'' = Some 0
   \<and> fst (collectCatalog (quietEnv\<lparr>catalogRows := Inr \<lparr>columns = Inr [''relkind'', ''count'', ''size''],
          scanned = [Inr [cell ''r'', cell ''5'', cell ''100'']]\<rparr>\<rparr>) Map.empty)
      ''catalog_relkind_r_count'' = Some 5
   \<and> collectCatalog (quietEnv\<lparr>catalogRows := Inl (Failure ''timeout'')\<rparr>) Map.empty
       = (Map.empty, Some (Failure ''timeout''))"
proof -
  let ?rows = "\<lparr>columns = Inr [''relkind'', ''count'', ''size''],
          scanned = [Inr [cell ''r'', cell ''5'', cell ''100'']]\<rparr>"
  let ?env = "quietEnv\<lparr>catalogRows := Inr ?rows\<rparr>"
  have 1: "catalogRows ?env = Inr ?rows" by simp
  have 2: "''i'' \<in> {''r'', ''i'', ''S'', ''t'', ''v'', ''m'', ''c'', ''f'', ''p'', ''I''}" by simp
  have 3: "\<forall>cols. columns ?rows = Inr cols
             \<longrightarrow> ''i'' \<notin> set (columnValues ''relkind'' cols (scanned ?rows))"
    by (simp add: valueToString_cell)
  have 4: "fst (collectCatalog ?env Map.empty) ''catalog_relkind_r_count'' = Some 5"
    by (simp add: collectCatalog_def assignCatalog_def valueToString_cell safeParseInt_5)
  have 5: "catalogRows (quietEnv\<lparr>catalogRows := Inl (Failure ''timeout'')\<rparr>) = Inl (Failure ''timeout'')"
    by simp
  from catalog_ten_kinds_seeded [of ?env ?rows "''i''" Map.empty]
    catalog_ten_kinds_seeded [of "quietEnv\<lparr>catalogRows := Inl (Failure ''timeout'')\<rparr>" _ _ Map.empty
      "Failure ''timeout''"]
    1 2 3 4 5
  show ?thesis by simp
qed

text \<open>
  C5 as stated fails for a cycle whose catalog statement fails: the collector returns
  before the seeding, and the snapshot the cycle returns with the error holds none of
  the ten kinds' keys.
\<close>

theorem catalog_statement_fails_counterexample:
  "err (collect (quietEnv\<lparr>catalogRows := Inl (Failure ''timeout'')\<rparr>) 100 newPostgres)
     = Some (Errorf ''querying catalog relations error: '' (Failure ''timeout''))
   \<and> (case snapshot (collect (quietEnv\<lparr>catalogRows := Inl (Failure ''timeout'')\<rparr>) 100 newPostgres) of
        None \<Rightarrow> False
      | Some mx \<Rightarrow> mx ''catalog_relkind_r_count'' = None \<and> mx ''catalog_relkind_r_size'' = None
          \<and> mx ''wal_writes'' = Some 7)"
  by code_simp

subsection \<open>The refresh windows\<close>















subsection \<open>Which groups a cycle attempts\<close>

lemma prelude_queries:
  "set (fst (snd (prelude env now p)))
     \<subseteq> {QServerVersion, QSettingsMaxConnections, QDatabaseList, QStandbyAppList}"
proof (rule prelude_rel [where P = "\<lambda>p p' qs. set qs
     \<subseteq> {QServerVersion, QSettingsMaxConnections, QDatabaseList, QStandbyAppList}"])
  show "\<And>p. set (fst (snd (ensureServerVersion env p)))
      \<subseteq> {QServerVersion, QSettingsMaxConnections, QDatabaseList, QStandbyAppList}"
    by (simp add: ensureServerVersion_def split: prod.splits option.splits)
  show "\<And>p. set (fst (snd (refreshSettings env now p)))
      \<subseteq> {QServerVersion, QSettingsMaxConnections, QDatabaseList, QStandbyAppList}"
    by (simp add: refreshSettings_def Let_def split: prod.splits option.splits)
  show "\<And>p. set (fst (snd (refreshDatabases env now p)))
      \<subseteq> {QServerVersion, QSettingsMaxConnections, QDatabaseList, QStandbyAppList}"
    by (simp add: refreshDatabases_def Let_def split: sum.splits)
  show "\<And>p. set (fst (snd (refreshStandbys env now p)))
      \<subseteq> {QServerVersion, QSettingsMaxConnections, QDatabaseList, QStandbyAppList}"
    using refreshStandbys_issued [of env now] by auto
qed simp_all

text \<open>A statement of the later steps that was issued is one of the steps of the list.\<close>

lemma issued_stage:
  assumes "q \<in> set (issued (collect env now p))"
    and "q \<notin> {QServerVersion, QSettingsMaxConnections, QDatabaseList, QStandbyAppList}"
  shows "q \<in> fst ` set (allStages env (state (collect env now p)))"
proof -
  from collect_issued [of env now p] obtain q5 where
    i: "issued (collect env now p) = fst (snd (prelude env now p)) @ q5"
    and s: "set q5 \<subseteq> fst ` set (allStages env (fst (prelude env now p)))"
    by blast
  from assms(2) prelude_queries [of env now p] have "q \<notin> set (fst (snd (prelude env now p)))"
    by auto
  with assms(1) i have "q \<in> set q5" by simp
  with s show ?thesis by (auto simp: collect_state)
qed

lemma allStages_standby:
  "QStandbyAppDelta \<in> fst ` set (allStages env p) \<Longrightarrow> standbyApps p \<noteq> []"
  "QStandbyAppLag \<in> fst ` set (allStages env p) \<Longrightarrow> standbyApps p \<noteq> [] \<and> serverVersion p \<ge> 100000"
  by (auto simp: allStages_def coreStages_def standbyStages_def databaseStages_def split: if_splits)

lemma allStages_database:
  "QDatabaseStats \<in> fst ` set (allStages env p) \<Longrightarrow> databases p \<noteq> []"
  "QDatabaseConflicts \<in> fst ` set (allStages env p) \<Longrightarrow> databases p \<noteq> []"
  "QDatabaseLocks \<in> fst ` set (allStages env p) \<Longrightarrow> databases p \<noteq> []"
  by (auto simp: allStages_def coreStages_def standbyStages_def databaseStages_def split: if_splits)

text \<open>Where a cycle's error comes from.\<close>

lemma runStages_err:
  "fst (snd (runStages sts mx)) = Some x \<Longrightarrow>
   \<exists>q msg f e. (q, msg, f) \<in> set sts \<and> x = Errorf msg e"
proof (induction sts arbitrary: mx)
  case Nil
  then show ?case by simp
next
  case (Cons st sts)
  obtain q msg f where st: "st = (q, msg, f)" by (cases st)
  obtain mx1 eo where f: "f mx = (mx1, eo)" by (cases "f mx")
  show ?case
  proof (cases eo)
    case (Some e)
    with st f Cons.prems have "x = Errorf msg e" by simp
    with st show ?thesis by auto
  next
    case None
    obtain mx2 e qs where r: "runStages sts mx1 = (mx2, e, qs)" by (cases "runStages sts mx1")
    with st f None Cons.prems have "fst (snd (runStages sts mx1)) = Some x" by simp
    from Cons.IH [OF this] show ?thesis by auto
  qed
qed

lemma andThen_err:
  "snd (snd (andThen r f)) = Some x \<Longrightarrow> snd (snd r) = Some x \<or> (\<exists>p. snd (snd (f p)) = Some x)"
proof -
  assume a: "snd (snd (andThen r f)) = Some x"
  obtain p1 qs1 eo where r: "r = (p1, qs1, eo)" by (cases r)
  show ?thesis
  proof (cases eo)
    case (Some e)
    with r a show ?thesis by simp
  next
    case None
    with r a have "snd (snd (f p1)) = Some x"
      by (simp add: case_prod_beta)
    then show ?thesis by blast
  qed
qed

lemma prelude_err_not_lag:
  assumes "snd (snd (prelude env now p)) = Some x"
  shows "x \<noteq> Errorf lagMessage e"
proof -
  have 0: "\<And>p. snd (ensureConnection env p) = Some x \<Longrightarrow> x \<noteq> Errorf lagMessage e"
    by (auto simp: ensureConnection_def openConnection_def lagMessage_def split: if_splits option.splits)
  have 1: "\<And>p. snd (snd (ensureServerVersion env p)) = Some x \<Longrightarrow> x \<noteq> Errorf lagMessage e"
    by (auto simp: ensureServerVersion_def lagMessage_def split: if_splits prod.splits option.splits)
  have 2: "\<And>p. snd (snd (refreshSettings env now p)) = Some x \<Longrightarrow> x \<noteq> Errorf lagMessage e"
    by (auto simp: refreshSettings_def Let_def lagMessage_def split: if_splits prod.splits option.splits)
  have 3: "\<And>p. snd (snd (refreshDatabases env now p)) = Some x \<Longrightarrow> x \<noteq> Errorf lagMessage e"
    by (auto simp: refreshDatabases_def Let_def lagMessage_def split: if_splits sum.splits)
  have 4: "\<And>p. snd (snd (refreshStandbys env now p)) = Some x \<Longrightarrow> x \<noteq> Errorf lagMessage e"
    by (auto simp: refreshStandbys_def Let_def lagMessage_def split: if_splits sum.splits)
  let ?r0 = "case ensureConnection env p of (p0, eo) \<Rightarrow> (p0, [], eo)"
  have r0: "snd (snd ?r0) = snd (ensureConnection env p)"
    by (simp add: case_prod_beta)
  from assms andThen_err [of "andThen (andThen (andThen ?r0 (ensureServerVersion env))
        (refreshSettings env now)) (refreshDatabases env now)" "refreshStandbys env now" x]
    andThen_err [of "andThen (andThen ?r0 (ensureServerVersion env))
        (refreshSettings env now)" "refreshDatabases env now" x]
    andThen_err [of "andThen ?r0 (ensureServerVersion env)" "refreshSettings env now" x]
    andThen_err [of ?r0 "ensureServerVersion env" x]
  have "snd (ensureConnection env p) = Some x
      \<or> (\<exists>p. snd (snd (ensureServerVersion env p)) = Some x)
      \<or> (\<exists>p. snd (snd (refreshSettings env now p)) = Some x)
      \<or> (\<exists>p. snd (snd (refreshDatabases env now p)) = Some x)
      \<or> (\<exists>p. snd (snd (refreshStandbys env now p)) = Some x)"
    unfolding prelude_def r0 by blast
  with 0 1 2 3 4 show ?thesis by blast
qed

lemma allStages_lag_message:
  "(q, lagMessage, f) \<in> set (allStages env p) \<Longrightarrow> standbyApps p \<noteq> [] \<and> serverVersion p \<ge> 100000"
  by (auto simp: allStages_def coreStages_def standbyStages_def databaseStages_def lagMessage_def
      split: if_splits)

lemma collect_err_not_lag:
  assumes "serverVersion (state (collect env now p)) < 100000"
  shows "err (collect env now p) \<noteq> Some (Errorf lagMessage e)"
proof (cases "prelude env now p")
  case (fields p4 qs eo)
  then have p4: "state (collect env now p) = p4"
    by (simp add: collect_state)
  show ?thesis
  proof (cases eo)
    case (Some x)
    with fields have "err (collect env now p) = Some x"
      by (simp add: collect_prelude failed_def)
    moreover have "x \<noteq> Errorf lagMessage e"
      using prelude_err_not_lag [of env now p x e] fields Some by simp
    ultimately show ?thesis by simp
  next
    case None
    have e: "err (collect env now p) = fst (snd (runStages (allStages env p4) Map.empty))"
      using fields None by (simp add: collect_prelude case_prod_beta)
    show ?thesis
    proof
      assume "err (collect env now p) = Some (Errorf lagMessage e)"
      with e runStages_err [of "allStages env p4" Map.empty "Errorf lagMessage e"]
      obtain q f where "(q, lagMessage, f) \<in> set (allStages env p4)" by auto
      from allStages_lag_message [OF this] assms p4 show False by simp
    qed
  qed
qed

text \<open>What the lag collector would have answered is never looked at below version 10.\<close>

lemma prelude_lag_independent:
  "prelude (env\<lparr>standbyAppLagRows := r\<rparr>) now p = prelude env now p"
proof -
  have 0: "ensureConnection (env\<lparr>standbyAppLagRows := r\<rparr>) = ensureConnection env"
    by (rule ext) (simp add: ensureConnection_def openConnection_def Let_def split: option.splits sum.splits prod.splits)
  have 1: "ensureServerVersion (env\<lparr>standbyAppLagRows := r\<rparr>) = ensureServerVersion env"
    by (rule ext) (simp add: ensureServerVersion_def queryServerVersion_def Let_def split: option.splits sum.splits prod.splits)
  have 2: "refreshSettings (env\<lparr>standbyAppLagRows := r\<rparr>) now = refreshSettings env now"
    by (rule ext) (simp add: refreshSettings_def querySettingsMaxConnections_def Let_def split: option.splits sum.splits prod.splits)
  have 3: "refreshDatabases (env\<lparr>standbyAppLagRows := r\<rparr>) now = refreshDatabases env now"
    by (rule ext) (simp add: refreshDatabases_def Let_def split: option.splits sum.splits prod.splits)
  have 4: "refreshStandbys (env\<lparr>standbyAppLagRows := r\<rparr>) now = refreshStandbys env now"
    by (rule ext) (simp add: refreshStandbys_def queryStandbyAppList_def Let_def split: option.splits sum.splits prod.splits)
  show ?thesis
    unfolding prelude_def 0 1 2 3 4 ..
qed

lemma allStages_lag_independent:
  assumes "serverVersion p < 100000"
  shows "allStages (env\<lparr>standbyAppLagRows := r\<rparr>) p = allStages env p"
proof -
  have c: "coreStages (env\<lparr>standbyAppLagRows := r\<rparr>) = coreStages env"
  proof -
    have "collectUptime (env\<lparr>standbyAppLagRows := r\<rparr>) = collectUptime env"
      by (rule ext) (simp add: collectUptime_def Let_def split: option.splits sum.splits prod.splits)
    moreover have "collectTXIDWraparound (env\<lparr>standbyAppLagRows := r\<rparr>) = collectTXIDWraparound env"
      by (rule ext) (simp add: collectTXIDWraparound_def Let_def split: option.splits sum.splits prod.splits)
    moreover have "collectWALWrites (env\<lparr>standbyAppLagRows := r\<rparr>) = collectWALWrites env"
      by (rule ext) (simp add: collectWALWrites_def Let_def split: option.splits sum.splits prod.splits)
    moreover have "collectWALFiles (env\<lparr>standbyAppLagRows := r\<rparr>) = collectWALFiles env"
      by (rule ext) (simp add: collectWALFiles_def Let_def split: option.splits sum.splits prod.splits)
    moreover have "collectWALArchiveFiles (env\<lparr>standbyAppLagRows := r\<rparr>) = collectWALArchiveFiles env"
      by (rule ext) (simp add: collectWALArchiveFiles_def Let_def split: option.splits sum.splits prod.splits)
    moreover have "collectCatalog (env\<lparr>standbyAppLagRows := r\<rparr>) = collectCatalog env"
      by (rule ext) (simp add: collectCatalog_def Let_def split: option.splits sum.splits prod.splits)
    moreover have "collectAutovacuumWorkers (env\<lparr>standbyAppLagRows := r\<rparr>) = collectAutovacuumWorkers env"
      by (rule ext) (simp add: collectAutovacuumWorkers_def Let_def split: option.splits sum.splits prod.splits)
    ultimately show ?thesis
      by (simp add: coreStages_def)
  qed
  have "collectReplicationStandbyAppWALDelta (env\<lparr>standbyAppLagRows := r\<rparr>)
      = collectReplicationStandbyAppWALDelta env"
    by (rule ext) (simp add: collectReplicationStandbyAppWALDelta_def Let_def split: option.splits sum.splits prod.splits)
  with assms have s: "standbyStages (env\<lparr>standbyAppLagRows := r\<rparr>) p = standbyStages env p"
    by (simp add: standbyStages_def)
  have d: "databaseStages (env\<lparr>standbyAppLagRows := r\<rparr>) p = databaseStages env p"
    by (simp add: databaseStages_def)
  show ?thesis
    unfolding allStages_def c s d ..
qed

lemma collect_lag_independent:
  assumes "serverVersion (state (collect env now p)) < 100000"
  shows "collect (env\<lparr>standbyAppLagRows := r\<rparr>) now p = collect env now p"
proof (cases "prelude env now p")
  case (fields p4 qs eo)
  then have "state (collect env now p) = p4"
    by (simp add: collect_state)
  with assms have "allStages (env\<lparr>standbyAppLagRows := r\<rparr>) p4 = allStages env p4"
    by (simp add: allStages_lag_independent)
  with fields show ?thesis
    by (simp add: collect_prelude prelude_lag_independent)
qed

text \<open>
  Claim C8. The standby and the database collectors are attempted only for a non-empty
  tracked set, and the lag collector only at version 10 or later. Write \<open>c\<close> for what a
  cycle returns and \<open>state c\<close> for the collector as the cycle leaves it (the tracked
  sets are the ones the refresh of this very cycle produced). If the delta statement was
  issued, the tracked standby set is not empty; if the lag statement was issued, the
  tracked standby set is not empty and the server version is at least 100000; if any of
  the three per-database statements was issued, the tracked database set is not empty.
  Below version 100000 the lag statement is not issued, the cycle's error is never the
  lag collector's, and the cycle returns the same whatever the lag statement would have
  answered: the skip is silent.
\<close>

theorem groups_only_when_tracked:
  "(QStandbyAppDelta \<in> set (issued (collect env now p))
      \<longrightarrow> standbyApps (state (collect env now p)) \<noteq> [])
   \<and> (QStandbyAppLag \<in> set (issued (collect env now p))
      \<longrightarrow> standbyApps (state (collect env now p)) \<noteq> []
          \<and> serverVersion (state (collect env now p)) \<ge> 100000)
   \<and> (QDatabaseStats \<in> set (issued (collect env now p))
      \<longrightarrow> databases (state (collect env now p)) \<noteq> [])
   \<and> (QDatabaseConflicts \<in> set (issued (collect env now p))
      \<longrightarrow> databases (state (collect env now p)) \<noteq> [])
   \<and> (QDatabaseLocks \<in> set (issued (collect env now p))
      \<longrightarrow> databases (state (collect env now p)) \<noteq> [])
   \<and> (serverVersion (state (collect env now p)) < 100000
      \<longrightarrow> QStandbyAppLag \<notin> set (issued (collect env now p))
          \<and> (\<forall>e. err (collect env now p) \<noteq> Some (Errorf lagMessage e))
          \<and> (\<forall>r. collect (env\<lparr>standbyAppLagRows := r\<rparr>) now p = collect env now p))"
proof (intro conjI impI allI)
  assume "QStandbyAppDelta \<in> set (issued (collect env now p))"
  then have "QStandbyAppDelta \<in> fst ` set (allStages env (state (collect env now p)))"
    by (rule issued_stage) simp
  then show "standbyApps (state (collect env now p)) \<noteq> []"
    by (rule allStages_standby(1))
next
  assume "QStandbyAppLag \<in> set (issued (collect env now p))"
  then have a: "QStandbyAppLag \<in> fst ` set (allStages env (state (collect env now p)))"
    by (rule issued_stage) simp
  from allStages_standby(2) [OF a] show "standbyApps (state (collect env now p)) \<noteq> []"
    by simp
next
  assume "QStandbyAppLag \<in> set (issued (collect env now p))"
  then have a: "QStandbyAppLag \<in> fst ` set (allStages env (state (collect env now p)))"
    by (rule issued_stage) simp
  from allStages_standby(2) [OF a] show "100000 \<le> serverVersion (state (collect env now p))"
    by simp
next
  assume "QDatabaseStats \<in> set (issued (collect env now p))"
  then have "QDatabaseStats \<in> fst ` set (allStages env (state (collect env now p)))"
    by (rule issued_stage) simp
  then show "databases (state (collect env now p)) \<noteq> []"
    by (rule allStages_database(1))
next
  assume "QDatabaseConflicts \<in> set (issued (collect env now p))"
  then have "QDatabaseConflicts \<in> fst ` set (allStages env (state (collect env now p)))"
    by (rule issued_stage) simp
  then show "databases (state (collect env now p)) \<noteq> []"
    by (rule allStages_database(2))
next
  assume "QDatabaseLocks \<in> set (issued (collect env now p))"
  then have "QDatabaseLocks \<in> fst ` set (allStages env (state (collect env now p)))"
    by (rule issued_stage) simp
  then show "databases (state (collect env now p)) \<noteq> []"
    by (rule allStages_database(3))
next
  assume v: "serverVersion (state (collect env now p)) < 100000"
  show "QStandbyAppLag \<notin> set (issued (collect env now p))"
  proof
    assume "QStandbyAppLag \<in> set (issued (collect env now p))"
    then have a: "QStandbyAppLag \<in> fst ` set (allStages env (state (collect env now p)))"
      by (rule issued_stage) simp
    from allStages_standby(2) [OF a] v show False by simp
  qed
next
  fix e
  assume "serverVersion (state (collect env now p)) < 100000"
  then show "err (collect env now p) \<noteq> Some (Errorf lagMessage e)"
    by (rule collect_err_not_lag)
next
  fix r
  assume "serverVersion (state (collect env now p)) < 100000"
  then show "collect (env\<lparr>standbyAppLagRows := r\<rparr>) now p = collect env now p"
    by (rule collect_lag_independent)
qed

theorem groups_only_when_tracked_witness:
  "serverVersion (state (collect
       (quietEnv\<lparr>serverVersionRow := Inr ''90600'',
                 standbyAppListRows := Inr (valueRows ''application_name'' [''replica1'']),
                 standbyAppLagRows := Inl (Failure ''no such column'')\<rparr>) 100 newPostgres)) = 90600
   \<and> QStandbyAppDelta \<in> set (issued (collect
       (quietEnv\<lparr>serverVersionRow := Inr ''90600'',
                 standbyAppListRows := Inr (valueRows ''application_name'' [''replica1'']),
                 standbyAppLagRows := Inl (Failure ''no such column'')\<rparr>) 100 newPostgres))
   \<and> standbyApps (state (collect
       (quietEnv\<lparr>serverVersionRow := Inr ''90600'',
                 standbyAppListRows := Inr (valueRows ''application_name'' [''replica1'']),
                 standbyAppLagRows := Inl (Failure ''no such column'')\<rparr>) 100 newPostgres)) \<noteq> []
   \<and> QStandbyAppLag \<notin> set (issued (collect
       (quietEnv\<lparr>serverVersionRow := Inr ''90600'',
                 standbyAppListRows := Inr (valueRows ''application_name'' [''replica1'']),
                 standbyAppLagRows := Inl (Failure ''no such column'')\<rparr>) 100 newPostgres))
   \<and> err (collect
       (quietEnv\<lparr>serverVersionRow := Inr ''90600'',
                 standbyAppListRows := Inr (valueRows ''application_name'' [''replica1'']),
                 standbyAppLagRows := Inl (Failure ''no such column'')\<rparr>) 100 newPostgres)
       \<noteq> Some (Errorf lagMessage (Failure ''no such column''))
   \<and> collect
       (quietEnv\<lparr>serverVersionRow := Inr ''90600'',
                 standbyAppListRows := Inr (valueRows ''application_name'' [''replica1'']),
                 standbyAppLagRows := Inl (Failure ''no such column'')\<rparr>
          \<lparr>standbyAppLagRows := Inr emptyRows\<rparr>) 100 newPostgres
     = collect
       (quietEnv\<lparr>serverVersionRow := Inr ''90600'',
                 standbyAppListRows := Inr (valueRows ''application_name'' [''replica1'']),
                 standbyAppLagRows := Inl (Failure ''no such column'')\<rparr>) 100 newPostgres"
proof -
  let ?env = "quietEnv\<lparr>serverVersionRow := Inr ''90600'',
                 standbyAppListRows := Inr (valueRows ''application_name'' [''replica1'']),
                 standbyAppLagRows := Inl (Failure ''no such column'')\<rparr>"
  have v: "serverVersion (state (collect ?env 100 newPostgres)) = 90600"
    by code_simp
  have d: "QStandbyAppDelta \<in> set (issued (collect ?env 100 newPostgres))"
    by code_simp
  from groups_only_when_tracked [of ?env 100 newPostgres] v d
  show ?thesis by simp
qed

subsection \<open>A step that fails\<close>

lemma runStages_append:
  "fst (snd (runStages pre mx)) = None \<Longrightarrow>
   runStages (pre @ rest) mx
     = (case runStages rest (fst (runStages pre mx)) of
          (mx2, e, qs2) \<Rightarrow> (mx2, e, map fst pre @ qs2))"
proof (induction pre arbitrary: mx)
  case Nil
  then show ?case by simp
next
  case (Cons st pre)
  obtain q msg f where st: "st = (q, msg, f)" by (cases st)
  obtain mx1 eo where f: "f mx = (mx1, eo)" by (cases "f mx")
  show ?case
  proof (cases eo)
    case (Some e)
    with st f Cons.prems show ?thesis by simp
  next
    case None
    with st f Cons.prems have "fst (snd (runStages pre mx1)) = None"
      by (simp add: case_prod_beta)
    from Cons.IH [OF this] st f None show ?thesis
      by (simp add: case_prod_beta)
  qed
qed

text \<open>
  A step fails after the steps before it succeeded (lines 59-120): the cycle returns the
  map as the failing step left it, the step's error under the step's prefix, and has
  issued no statement of a later step.
\<close>

theorem failing_step_returns_partial_snapshot:
  assumes "snd (snd (prelude env now p)) = None"
    and "allStages env (fst (prelude env now p)) = pre @ (q, msg, f) # post"
    and "fst (snd (runStages pre Map.empty)) = None"
    and "snd (f (fst (runStages pre Map.empty))) = Some e"
  shows "snapshot (collect env now p) = Some (fst (f (fst (runStages pre Map.empty))))
     \<and> err (collect env now p) = Some (Errorf msg e)
     \<and> issued (collect env now p) = fst (snd (prelude env now p)) @ map fst pre @ [q]"
proof -
  obtain p4 qs where pr: "prelude env now p = (p4, qs, None)"
    using assms(1) by (cases "prelude env now p") auto
  obtain mx1 where f: "f (fst (runStages pre Map.empty)) = (mx1, Some e)"
    using assms(4) by (cases "f (fst (runStages pre Map.empty))") auto
  have "runStages (allStages env p4) Map.empty
      = (case runStages ((q, msg, f) # post) (fst (runStages pre Map.empty)) of
           (mx2, e, qs2) \<Rightarrow> (mx2, e, map fst pre @ qs2))"
    using assms(2) pr runStages_append [OF assms(3), of "(q, msg, f) # post"] by simp
  also have "\<dots> = (mx1, Some (Errorf msg e), map fst pre @ [q])"
    using f by simp
  finally show ?thesis
    using pr f by (simp add: collect_prelude)
qed

theorem failing_step_returns_partial_snapshot_witness:
  "snd (snd (prelude (quietEnv\<lparr>walFilesRows := Inl (Failure ''timeout'')\<rparr>) 100 newPostgres)) = None
   \<and> snapshot (collect (quietEnv\<lparr>walFilesRows := Inl (Failure ''timeout'')\<rparr>) 100 newPostgres)
       = Some [''server_uptime'' \<mapsto> 42, ''wal_writes'' \<mapsto> 7]
   \<and> err (collect (quietEnv\<lparr>walFilesRows := Inl (Failure ''timeout'')\<rparr>) 100 newPostgres)
       = Some (Errorf ''querying wal files error: '' (Failure ''timeout''))
   \<and> issued (collect (quietEnv\<lparr>walFilesRows := Inl (Failure ''timeout'')\<rparr>) 100 newPostgres)
       = [QServerVersion, QSettingsMaxConnections, QDatabaseList, QStandbyAppList,
          QConnection, QCheckpoints, QUptime, QTXIDWraparound, QWALWrites, QWALFiles]"
proof -
  let ?env = "quietEnv\<lparr>walFilesRows := Inl (Failure ''timeout'')\<rparr>"
  let ?pre = "take 5 (coreStages ?env)"
  let ?post = "drop 6 (coreStages ?env)"
  have 1: "snd (snd (prelude ?env 100 newPostgres)) = None"
    by code_simp
  have s: "standbyApps (fst (prelude ?env 100 newPostgres)) = []"
    by code_simp
  have d: "databases (fst (prelude ?env 100 newPostgres)) = []"
    by code_simp
  have 2: "allStages ?env (fst (prelude ?env 100 newPostgres))
      = ?pre @ (QWALFiles, ''querying wal files error: '', collectWALFiles ?env) # ?post"
    using s d by (simp add: allStages_def standbyStages_def databaseStages_def coreStages_def)
  have m: "runStages ?pre Map.empty
      = ([''server_uptime'' \<mapsto> 42, ''wal_writes'' \<mapsto> 7], None,
         [QConnection, QCheckpoints, QUptime, QTXIDWraparound, QWALWrites])"
    by (simp add: coreStages_def quietEnv_def collectUptime_def collectTXIDWraparound_def
        collectWALWrites_def emptyRows_def)
  have 3: "fst (snd (runStages ?pre Map.empty)) = None"
    using m by simp
  have w: "collectWALFiles ?env (fst (runStages ?pre Map.empty))
      = (fst (runStages ?pre Map.empty), Some (Failure ''timeout''))"
    by (simp add: collectWALFiles_def)
  have 4: "snd (collectWALFiles ?env (fst (runStages ?pre Map.empty))) = Some (Failure ''timeout'')"
    using w by simp
  have q: "fst (snd (prelude ?env 100 newPostgres))
      = [QServerVersion, QSettingsMaxConnections, QDatabaseList, QStandbyAppList]"
    by code_simp
  from failing_step_returns_partial_snapshot [OF 1 2 3 4] 1 m q
  show ?thesis by (simp add: collectWALFiles_def coreStages_def)
qed

text \<open>
  Claim C3. A cycle whose checkpoint collector fails returns the error under the prefix
  \<^verbatim>\<open>querying database conflicts error: \<close> (line 64), the prefix of the
  database-conflicts collector (line 114): the two failures return the same error, so
  the error does not tell which step failed. The snapshot is returned and the later
  steps are not run, as the claim says.
\<close>

theorem checkpoints_error_names_conflicts:
  "err (collect (quietEnv\<lparr>collectCheckpoints := (\<lambda>mx. (mx, Some (Failure ''timeout'')))\<rparr>)
          100 newPostgres)
     = Some (Errorf ''querying database conflicts error: '' (Failure ''timeout''))
   \<and> issued (collect (quietEnv\<lparr>collectCheckpoints := (\<lambda>mx. (mx, Some (Failure ''timeout'')))\<rparr>)
          100 newPostgres)
     = [QServerVersion, QSettingsMaxConnections, QDatabaseList, QStandbyAppList,
        QConnection, QCheckpoints]
   \<and> snapshot (collect (quietEnv\<lparr>collectCheckpoints := (\<lambda>mx. (mx, Some (Failure ''timeout'')))\<rparr>)
          100 newPostgres) \<noteq> None
   \<and> err (collect (quietEnv\<lparr>queryDatabaseList := Inr [''postgres''],
                           collectDatabaseConflicts := (\<lambda>mx. (mx, Some (Failure ''timeout'')))\<rparr>)
          100 newPostgres)
     = Some (Errorf ''querying database conflicts error: '' (Failure ''timeout''))
   \<and> last (issued (collect (quietEnv\<lparr>queryDatabaseList := Inr [''postgres''],
                           collectDatabaseConflicts := (\<lambda>mx. (mx, Some (Failure ''timeout'')))\<rparr>)
          100 newPostgres))
     = QDatabaseConflicts"
  by code_simp

end
